theory Spec2Isabelle
  imports Main "HOL-Library.Sublist"
begin

section \<open>Strings\<close>

text \<open>
  A Python \<open>str\<close> is modelled as a \<open>string\<close>: one \<open>char\<close> per code point, for the
  code points 0..255. The character classes below are Python's on that range:
  \<open>str.isspace\<close> (which is also what the regular expression class for white space
  matches on a \<open>str\<close> pattern, and what \<open>str.strip\<close> removes), the decimal digits,
  the word characters (alphanumeric or underscore) and \<open>str.lower\<close>.
\<close>

definition is_space :: "char \<Rightarrow> bool" where
  "is_space c =
     (let n = (of_char c :: nat)
      in (9 \<le> n \<and> n \<le> 13) \<or> (28 \<le> n \<and> n \<le> 32) \<or> n = 133 \<or> n = 160)"

definition is_digit :: "char \<Rightarrow> bool" where
  "is_digit c = (let n = (of_char c :: nat) in 48 \<le> n \<and> n \<le> 57)"

definition is_word :: "char \<Rightarrow> bool" where
  "is_word c =
     (let n = (of_char c :: nat)
      in (48 \<le> n \<and> n \<le> 57) \<or> (65 \<le> n \<and> n \<le> 90) \<or> n = 95 \<or> (97 \<le> n \<and> n \<le> 122)
         \<or> n = 170 \<or> n = 178 \<or> n = 179 \<or> n = 181 \<or> n = 185 \<or> n = 186
         \<or> (188 \<le> n \<and> n \<le> 190) \<or> (192 \<le> n \<and> n \<le> 214) \<or> (216 \<le> n \<and> n \<le> 246)
         \<or> 248 \<le> n)"

definition lower_char :: "char \<Rightarrow> char" where
  "lower_char c =
     (let n = (of_char c :: nat)
      in if (65 \<le> n \<and> n \<le> 90) \<or> (192 \<le> n \<and> n \<le> 222 \<and> n \<noteq> 215)
         then char_of (n + 32) else c)"

definition lower :: "string \<Rightarrow> string" where
  "lower s = map lower_char s"

text \<open>\<open>s.strip()\<close>: leading and trailing white space removed.\<close>

definition strip :: "string \<Rightarrow> string" where
  "strip s = rev (dropWhile is_space (rev (dropWhile is_space s)))"

text \<open>\<open>sub in s\<close> on strings: \<open>sub\<close> occurs in \<open>s\<close> as a contiguous run.\<close>

fun contains :: "string \<Rightarrow> string \<Rightarrow> bool" where
  "contains [] sub = (sub = [])"
| "contains (c # cs) sub = (prefix sub (c # cs) \<or> contains cs sub)"

section \<open>Name sanitiser\<close>

text \<open>
  \<^verbatim>\<open>
  def _sanitise(name):
      name = re.sub(r'[\\/*?:"<>|]', "", name)
      name = re.sub(r"\s+", " ", name).strip()
      return name[:120]
  \<close>
  The same body stands in both source files (\<open>sanitise\<close> in the command-line script).
\<close>

definition illegal_chars :: "char list" where
  "illegal_chars =
     [CHR 0x5C, CHR ''/'', CHR ''*'', CHR ''?'', CHR '':'', CHR 0x22, CHR ''<'', CHR ''>'', CHR ''|'']"

definition remove_illegal :: "string \<Rightarrow> string" where
  "remove_illegal name = filter (\<lambda>c. c \<notin> set illegal_chars) name"

text \<open>Every maximal run of white space is replaced by one space.\<close>

function collapse_ws :: "string \<Rightarrow> string" where
  "collapse_ws [] = []"
| "collapse_ws (c # cs) =
     (if is_space c then CHR '' '' # collapse_ws (dropWhile is_space cs)
      else c # collapse_ws cs)"
  by pat_completeness auto
termination
  by (relation "measure length") (auto simp: less_Suc_eq_le length_dropWhile_le)

definition sanitise :: "string \<Rightarrow> string" where
  "sanitise name = take 120 (strip (collapse_ws (remove_illegal name)))"

section \<open>Classifier\<close>

text \<open>
  \<^verbatim>\<open>
  def _grade(text):
      t = text.lower()
      m = re.search(r"gr(?:ade)?\.?\s*(\d+)", t)
      if m:
          return f"Grade {m.group(1)}"
      if "gec" in t or "general education certificate" in t:
          return "Grade 9 (GEC)"
      if "annual national assessment" in t or " ana" in t:
          return "ANA (Grades 1-6 & 9)"
      return "Other"
  \<close>
  \<open>grade_match_at\<close> is the pattern matched at the start of its argument; it returns
  group 1. Each optional or repeated part is taken greedily. Backing off never helps
  this pattern: the character a shorter choice leaves behind (\<open>a\<close>, a dot or a white
  space) cannot start what the pattern asks for next.
\<close>

definition grade_match_at :: "string \<Rightarrow> string option" where
  "grade_match_at s =
     (if prefix ''gr'' s then
        (let s0 = drop 2 s;
             s1 = (if prefix ''ade'' s0 then drop 3 s0 else s0);
             s2 = (if prefix ''.'' s1 then drop 1 s1 else s1);
             s3 = dropWhile is_space s2;
             ds = takeWhile is_digit s3
         in if ds = [] then None else Some ds)
      else None)"

text \<open>\<open>re.search\<close>: the match at the leftmost position that has one.\<close>

fun grade_search :: "string \<Rightarrow> string option" where
  "grade_search [] = None"
| "grade_search (c # cs) =
     (case grade_match_at (c # cs) of
        Some ds \<Rightarrow> Some ds
      | None \<Rightarrow> grade_search cs)"

definition detect_grade :: "string \<Rightarrow> string" where
  "detect_grade text =
     (let t = lower text
      in case grade_search t of
           Some ds \<Rightarrow> ''Grade '' @ ds
         | None \<Rightarrow>
             if contains t ''gec'' \<or> contains t ''general education certificate''
             then ''Grade 9 (GEC)''
             else if contains t ''annual national assessment'' \<or> contains t '' ana''
             then ''ANA (Grades 1-6 & 9)''
             else ''Other'')"

text \<open>
  \<^verbatim>\<open>
  def _year(text):
      m = re.search(r"\b(20\d{2})\b", text)
      return m.group(1) if m else "Unknown Year"
  \<close>
  \<open>year_match_at\<close> matches the four characters and the word boundary after them;
  \<open>year_search\<close> carries whether the character before the position is a word
  character, which is what the word boundary in front of the year asks about.
\<close>

definition year_match_at :: "string \<Rightarrow> string option" where
  "year_match_at s =
     (case s of
        a # b # c # d # rest \<Rightarrow>
          if a = CHR ''2'' \<and> b = CHR ''0'' \<and> is_digit c \<and> is_digit d
             \<and> (case rest of [] \<Rightarrow> True | e # _ \<Rightarrow> \<not> is_word e)
          then Some [a, b, c, d] else None
      | _ \<Rightarrow> None)"

fun year_search :: "bool \<Rightarrow> string \<Rightarrow> string option" where
  "year_search prev_word [] = None"
| "year_search prev_word (c # cs) =
     (if prev_word then year_search (is_word c) cs
      else case year_match_at (c # cs) of
             Some y \<Rightarrow> Some y
           | None \<Rightarrow> year_search (is_word c) cs)"

definition detect_year :: "string \<Rightarrow> string" where
  "detect_year text =
     (case year_search False text of Some y \<Rightarrow> y | None \<Rightarrow> ''Unknown Year'')"

section \<open>Configuration and the world the pipeline acts on\<close>

definition BASE_URL :: string where
  "BASE_URL = ''https://www.ecexams.co.za/''"

definition INDEX_URL :: string where
  "INDEX_URL = ''https://www.ecexams.co.za/ExaminationPapers.htm''"

definition MAX_RETRY :: nat where
  "MAX_RETRY = 3"

text \<open>
  The libraries the scripts call are parameters of the model:
  \<^item> \<open>http_get n u\<close> is what \<open>session.get(u)\<close> followed by \<open>raise_for_status()\<close>
    gives for the \<open>n\<close>-th request the process issues: the body, or \<open>None\<close> for a
    \<open>RequestException\<close>;
  \<^item> \<open>find_links page\<close> is BeautifulSoup's \<open>find_all("a", href=True)\<close>: for each
    anchor its \<open>href\<close> attribute and its \<open>get_text(separator=" ", strip=True)\<close>;
  \<^item> \<open>urljoin\<close> is \<open>urllib.parse.urljoin\<close>;
  \<^item> \<open>path_suffix h\<close> and \<open>path_stem h\<close> are \<open>Path(urlparse(h).path).suffix\<close> and
    \<open>.stem\<close>.
\<close>

record libs =
  http_get :: "nat \<Rightarrow> string \<Rightarrow> string option"
  find_links :: "string \<Rightarrow> (string \<times> string) list"
  urljoin :: "string \<Rightarrow> string \<Rightarrow> string"
  path_suffix :: "string \<Rightarrow> string"
  path_stem :: "string \<Rightarrow> string"

text \<open>
  A \<open>pathlib\<close> path is the list of its components below a base directory that always
  exists (the empty list). \<open>Path s\<close> splits at the separator and drops empty and
  \<open>.\<close> components, as \<open>pathlib\<close> does; a component \<open>..\<close> is kept, and it is the
  operating system that resolves it. \<open>p / c\<close> restarts from \<open>c\<close> when \<open>c\<close> is
  absolute.
\<close>

type_synonym path = "string list"

fun split_slash :: "string \<Rightarrow> string list" where
  "split_slash [] = [[]]"
| "split_slash (c # cs) =
     (if c = CHR ''/'' then [] # split_slash cs
      else case split_slash cs of
             [] \<Rightarrow> [[c]]
           | p # ps \<Rightarrow> (c # p) # ps)"

definition Path :: "string \<Rightarrow> path" where
  "Path s = filter (\<lambda>c. c \<noteq> [] \<and> c \<noteq> ''.'') (split_slash s)"

definition path_join :: "path \<Rightarrow> string \<Rightarrow> path" where
  "path_join p c = (if prefix ''/'' c then Path c else p @ Path c)"

datatype io = IoGet string | IoMkdir path | IoWrite path | IoPool int

fun is_get :: "io \<Rightarrow> bool" where
  "is_get (IoGet u) = True"
| "is_get (IoMkdir p) = False"
| "is_get (IoWrite p) = False"
| "is_get (IoPool n) = False"

text \<open>
  The events of the web job, one constructor per \<open>emit\<close> call of the source, with the
  data its message is formatted from (the formatted text itself is not modelled).
\<close>

datatype kind = K_info | K_scan | K_download | K_warn | K_error | K_dryrun | K_progress | K_done

datatype event =
    Ev_info_fetching
  | Ev_info_found nat
  | Ev_info_total nat
  | Ev_warn_retry nat string
  | Ev_error_index
  | Ev_error_failed string
  | Ev_error_unexpected
  | Ev_scan string
  | Ev_dryrun path
  | Ev_download string
  | Ev_progress_scanned nat
  | Ev_progress_done nat nat
  | Ev_done nat nat nat nat

fun kind_of :: "event \<Rightarrow> kind" where
  "kind_of Ev_info_fetching = K_info"
| "kind_of (Ev_info_found n) = K_info"
| "kind_of (Ev_info_total n) = K_info"
| "kind_of (Ev_warn_retry a u) = K_warn"
| "kind_of Ev_error_index = K_error"
| "kind_of (Ev_error_failed u) = K_error"
| "kind_of Ev_error_unexpected = K_error"
| "kind_of (Ev_scan t) = K_scan"
| "kind_of (Ev_dryrun p) = K_dryrun"
| "kind_of (Ev_download f) = K_download"
| "kind_of (Ev_progress_scanned n) = K_progress"
| "kind_of (Ev_progress_done d t) = K_progress"
| "kind_of (Ev_done a b c d) = K_done"

datatype error = RuntimeError | OSError | ValueError | Conflict409

text \<open>
  The state: the regular files with their contents, the directories, the calls made to
  the network, the file system and the thread pool (oldest first), the event queue of
  the web job, and the flag \<open>_job_active\<close>.
\<close>

record world =
  files :: "path \<rightharpoonup> string"
  dirs :: "path set"
  io_trace :: "io list"
  events :: "event list"
  job_active :: bool

definition emit :: "event \<Rightarrow> world \<Rightarrow> world" where
  "emit e w = w\<lparr>events := events w @ [e]\<rparr>"

definition did :: "io \<Rightarrow> world \<Rightarrow> world" where
  "did a w = w\<lparr>io_trace := io_trace w @ [a]\<rparr>"

definition requests_made :: "world \<Rightarrow> nat" where
  "requests_made w = length (filter is_get (io_trace w))"

section \<open>Fetch client\<close>

text \<open>
  \<^verbatim>\<open>
  def _get(session, url, emit=None):
      for attempt in range(1, MAX_RETRY + 1):
          try:
              time.sleep(DELAY)
              r = session.get(url, timeout=TIMEOUT)
              r.raise_for_status()
              return r
          except requests.RequestException as e:
              if emit:
                  emit("warn", f"Retry {attempt}/{MAX_RETRY} ...")
              if attempt == MAX_RETRY:
                  return None
              time.sleep(2 ** attempt)
      return None
  \<close>
  \<open>get_loop\<close> is the loop with the attempt number and the number of attempts left.
  The sleeps are not modelled. \<open>safe_get\<close> of the command-line script is the same loop;
  it writes to the log, which is not modelled, instead of emitting.
\<close>

fun get_loop :: "libs \<Rightarrow> bool \<Rightarrow> string \<Rightarrow> nat \<Rightarrow> nat \<Rightarrow> world \<Rightarrow> string option \<times> world" where
  "get_loop L em u attempt 0 w = (None, w)"
| "get_loop L em u attempt (Suc k) w =
     (case http_get L (requests_made w) u of
        Some body \<Rightarrow> (Some body, did (IoGet u) w)
      | None \<Rightarrow>
          (let w1 = did (IoGet u) w;
               w2 = (if em then emit (Ev_warn_retry attempt u) w1 else w1)
           in if attempt = MAX_RETRY then (None, w2)
              else get_loop L em u (Suc attempt) k w2))"

definition get :: "libs \<Rightarrow> string \<Rightarrow> world \<Rightarrow> string option \<times> world" where
  "get L u w = get_loop L True u 1 MAX_RETRY w"

definition safe_get :: "libs \<Rightarrow> string \<Rightarrow> world \<Rightarrow> string option \<times> world" where
  "safe_get L u w = get_loop L False u 1 MAX_RETRY w"

section \<open>Index extractor\<close>

record session =
  s_url :: string
  s_title :: string
  s_grade :: string
  s_year :: string

text \<open>
  The year and the grade of a link of the index page, from its text and its \<open>href\<close>;
  both scripts compute them the same way:
  \<^verbatim>\<open>
  year  = _year(link_text) if _year(link_text) != "Unknown Year" else _year(href)
  grade = _grade(link_text + " " + href)
  \<close>
\<close>

definition link_year :: "string \<Rightarrow> string \<Rightarrow> string" where
  "link_year link_text href =
     (if detect_year link_text \<noteq> ''Unknown Year'' then detect_year link_text
      else detect_year href)"

definition link_grade :: "string \<Rightarrow> string \<Rightarrow> string" where
  "link_grade link_text href = detect_grade (link_text @ '' '' @ href)"

definition skip_prefixes :: "string list" where
  "skip_prefixes = [''mailto:'', ''http://bit.ly'', ''https://bit.ly'', ''#'']"

text \<open>
  The body of the loop over the anchors of the index page (web job), on the list of
  sessions collected so far:
  \<^verbatim>\<open>
  href = a["href"].strip()
  if href.startswith(("mailto:", "http://bit.ly", "https://bit.ly", "#")): continue
  if not href.endswith(".htm"): continue
  full_url = urljoin(BASE_URL, href)
  if full_url == INDEX_URL: continue
  link_text = a.get_text(separator=" ", strip=True)
  if not link_text or len(link_text) < 5: continue
  year  = _year(link_text) if _year(link_text) != "Unknown Year" else _year(href)
  grade = _grade(link_text + " " + href)
  title = _sanitise(link_text)
  if grade_filters and not any(gf in grade for gf in grade_filters): continue
  if year_filters and year not in year_filters: continue
  if any(s["url"] == full_url for s in sessions): continue
  sessions.append({"url": full_url, "title": title, "grade": grade, "year": year})
  \<close>
\<close>

definition index_step ::
  "libs \<Rightarrow> string list \<Rightarrow> string list \<Rightarrow> session list \<Rightarrow> string \<times> string \<Rightarrow> session list" where
  "index_step L grade_filters year_filters sessions a =
     (let href = strip (fst a); link_text = snd a
      in if list_ex (\<lambda>p. prefix p href) skip_prefixes then sessions
         else if \<not> suffix ''.htm'' href then sessions
         else let full_url = urljoin L BASE_URL href
              in if full_url = INDEX_URL then sessions
                 else if link_text = [] \<or> length link_text < 5 then sessions
                 else let yr = link_year link_text href;
                          gr = link_grade link_text href;
                          ti = sanitise link_text
                      in if grade_filters \<noteq> [] \<and> \<not> list_ex (\<lambda>gf. contains gr gf) grade_filters
                         then sessions
                         else if year_filters \<noteq> [] \<and> yr \<notin> set year_filters then sessions
                         else if list_ex (\<lambda>s. s_url s = full_url) sessions then sessions
                         else sessions @
                           [\<lparr>s_url = full_url, s_title = ti, s_grade = gr, s_year = yr\<rparr>])"

definition scrape_index ::
  "libs \<Rightarrow> string list \<Rightarrow> string list \<Rightarrow> world \<Rightarrow> session list \<times> world" where
  "scrape_index L grade_filters year_filters w =
     (case get L INDEX_URL (emit Ev_info_fetching w) of
        (None, w1) \<Rightarrow> ([], emit Ev_error_index w1)
      | (Some page, w1) \<Rightarrow>
          (let sessions = foldl (index_step L grade_filters year_filters) [] (find_links L page)
           in (sessions, emit (Ev_info_found (length sessions)) w1)))"

section \<open>Session extractor\<close>

record file_info =
  f_url :: string
  f_filename :: string
  f_session :: session

definition doc_exts :: "string list" where
  "doc_exts = [''.pdf'', ''.zip'', ''.docx'']"

text \<open>
  The body of the loop over the anchors of a session page, on the files found and the
  set of URLs seen so far:
  \<^verbatim>\<open>
  href = a["href"].strip()
  ext  = Path(urlparse(href).path).suffix.lower()
  if ext not in (".pdf", ".zip", ".docx"): continue
  file_url = urljoin(es["url"], href)
  if file_url in seen: continue
  seen.add(file_url)
  raw  = a.get_text(separator=" ", strip=True) or Path(urlparse(href).path).stem
  name = _sanitise(raw)
  if not name.lower().endswith(ext):
      name += ext
  files.append({"url": file_url, "filename": name, "exam_session": es})
  \<close>
\<close>

definition session_step ::
  "libs \<Rightarrow> session \<Rightarrow> file_info list \<times> string set \<Rightarrow> string \<times> string
   \<Rightarrow> file_info list \<times> string set" where
  "session_step L es st a =
     (let href = strip (fst a);
          ext = lower (path_suffix L href)
      in if ext \<notin> set doc_exts then st
         else let file_url = urljoin L (s_url es) href
              in if file_url \<in> snd st then st
                 else let raw = (if snd a \<noteq> [] then snd a else path_stem L href);
                          name = sanitise raw;
                          filename = (if suffix ext (lower name) then name else name @ ext)
                      in (fst st @ [\<lparr>f_url = file_url, f_filename = filename, f_session = es\<rparr>],
                          insert file_url (snd st)))"

definition scrape_session :: "libs \<Rightarrow> session \<Rightarrow> world \<Rightarrow> file_info list \<times> world" where
  "scrape_session L es w =
     (case get L (s_url es) (emit (Ev_scan (s_title es)) w) of
        (None, w1) \<Rightarrow> ([], w1)
      | (Some page, w1) \<Rightarrow> (fst (foldl (session_step L es) ([], {}) (find_links L page)), w1))"

section \<open>Download of one file\<close>

datatype outcome = Downloaded | Skipped | Failed | Dryrun

text \<open>
  The file system. The keys of \<open>files\<close> and \<open>dirs\<close> are resolved paths, in which no
  component is \<open>..\<close>; the base directory is the empty path.
\<close>

definition is_file :: "world \<Rightarrow> path \<Rightarrow> bool" where
  "is_file w p = (files w p \<noteq> None)"

definition is_dir :: "world \<Rightarrow> path \<Rightarrow> bool" where
  "is_dir w p = (p = [] \<or> p \<in> dirs w)"

text \<open>
  The operating system resolves a path component by component: each component is
  looked up in the directory reached so far, which must exist and be a directory, and
  \<open>..\<close> leads to the directory above it (from the base to the base itself, as at the
  root of a file system). \<open>walk w cur p\<close> resolves \<open>p\<close> from the resolved directory
  \<open>cur\<close>; the last component need not exist.
\<close>

datatype errno = ENOENT | ENOTDIR | EEXIST

fun walk :: "world \<Rightarrow> path \<Rightarrow> path \<Rightarrow> errno + path" where
  "walk w cur [] = Inr cur"
| "walk w cur (c # cs) =
     (if is_dir w cur then walk w (if c = ''..'' then butlast cur else cur @ [c]) cs
      else if is_file w cur then Inl ENOTDIR
      else Inl ENOENT)"

definition resolve :: "world \<Rightarrow> path \<Rightarrow> errno + path" where
  "resolve w p = walk w [] p"

text \<open>\<open>p.exists()\<close> and \<open>p.is_dir()\<close>: both are false when the path does not resolve.\<close>

definition path_exists :: "world \<Rightarrow> path \<Rightarrow> bool" where
  "path_exists w p =
     (case resolve w p of Inl e \<Rightarrow> False | Inr q \<Rightarrow> is_file w q \<or> is_dir w q)"

definition path_is_dir :: "world \<Rightarrow> path \<Rightarrow> bool" where
  "path_is_dir w p = (case resolve w p of Inl e \<Rightarrow> False | Inr q \<Rightarrow> is_dir w q)"

text \<open>\<open>os.mkdir(p)\<close>: the path must resolve and must not exist yet.\<close>

definition os_mkdir :: "path \<Rightarrow> world \<Rightarrow> errno + world" where
  "os_mkdir p w =
     (case resolve w p of
        Inl e \<Rightarrow> Inl e
      | Inr q \<Rightarrow>
          if is_file w q \<or> is_dir w q then Inl EEXIST
          else Inr (w\<lparr>dirs := insert q (dirs w)\<rparr>))"

text \<open>
  \<open>d.mkdir(parents=True, exist_ok=True)\<close>, as \<open>pathlib\<close> does it:
  \<^verbatim>\<open>
  try:
      os.mkdir(self, mode)
  except FileNotFoundError:
      if not parents or self.parent == self:
          raise
      self.parent.mkdir(parents=True, exist_ok=True)
      self.mkdir(mode, parents=False, exist_ok=exist_ok)
  except OSError:
      if not exist_ok or not self.is_dir():
          raise
  \<close>
  The parent of a path is the path without its last component. The result is the
  exception raised, if any, and the world with the directories made until then.
\<close>

function mkdir_parents :: "path \<Rightarrow> world \<Rightarrow> error option \<times> world" where
  "mkdir_parents d w =
     (case os_mkdir d w of
        Inr w1 \<Rightarrow> (None, w1)
      | Inl e \<Rightarrow>
          if e = ENOENT then
            (if d = [] then (Some OSError, w)
             else case mkdir_parents (butlast d) w of
                    (Some x, w1) \<Rightarrow> (Some x, w1)
                  | (None, w1) \<Rightarrow>
                      (case os_mkdir d w1 of
                         Inr w2 \<Rightarrow> (None, w2)
                       | Inl e2 \<Rightarrow>
                           if e2 \<noteq> ENOENT \<and> path_is_dir w1 d then (None, w1)
                           else (Some OSError, w1)))
          else if path_is_dir w d then (None, w)
          else (Some OSError, w))"
  by pat_completeness auto
termination
  by (relation "measure (\<lambda>(d, w). length d)") auto

text \<open>
  \<open>p.write_bytes(content)\<close> opens the file for writing: the path must resolve and
  must not be a directory.
\<close>

definition write_bytes :: "path \<Rightarrow> string \<Rightarrow> world \<Rightarrow> error + world" where
  "write_bytes p content w =
     (case resolve w p of
        Inl e \<Rightarrow> Inl OSError
      | Inr q \<Rightarrow>
          if is_dir w q then Inl OSError
          else Inr (did (IoWrite p) (w\<lparr>files := (files w)(q \<mapsto> content)\<rparr>)))"

definition dest_dir :: "string \<Rightarrow> file_info \<Rightarrow> path" where
  "dest_dir root fi =
     path_join (path_join (path_join (Path root) (sanitise (s_grade (f_session fi))))
                  (s_year (f_session fi)))
       (sanitise (s_title (f_session fi)))"

definition dest_path :: "string \<Rightarrow> file_info \<Rightarrow> path" where
  "dest_path root fi = path_join (dest_dir root fi) (f_filename fi)"

text \<open>
  \<^verbatim>\<open>
  def download_file(session, fi, root, dry_run, emit):
      es       = fi["exam_session"]
      dest_dir = Path(root) / _sanitise(es["grade"]) / es["year"] / _sanitise(es["title"])
      dest     = dest_dir / fi["filename"]
      if dry_run:
          emit("dryrun", f"{dest}")
          return "dryrun"
      if dest.exists():
          return "skipped"
      dest_dir.mkdir(parents=True, exist_ok=True)
      r = _get(session, fi["url"], emit)
      if r is None:
          emit("error", f"Failed: {fi['url']}")
          return "failed"
      dest.write_bytes(r.content)
      emit("download", f"{fi['filename']}")
      return "downloaded"
  \<close>
  An exception of the two file system calls leaves the function as \<open>Inl\<close>. The
  trace records the call of \<open>mkdir\<close> when it is made, and a write when it succeeds.
\<close>

definition download_file ::
  "libs \<Rightarrow> file_info \<Rightarrow> string \<Rightarrow> bool \<Rightarrow> world \<Rightarrow> (error + outcome) \<times> world" where
  "download_file L fi root dry_run w =
     (let dest = dest_path root fi
      in if dry_run then (Inr Dryrun, emit (Ev_dryrun dest) w)
         else if path_exists w dest then (Inr Skipped, w)
         else case mkdir_parents (dest_dir root fi) (did (IoMkdir (dest_dir root fi)) w) of
                (Some e, w1) \<Rightarrow> (Inl e, w1)
              | (None, w1) \<Rightarrow>
                  (case get L (f_url fi) w1 of
                     (None, w2) \<Rightarrow> (Inr Failed, emit (Ev_error_failed (f_url fi)) w2)
                   | (Some content, w2) \<Rightarrow>
                       (case write_bytes dest content w2 of
                          Inl e \<Rightarrow> (Inl e, w2)
                        | Inr w3 \<Rightarrow> (Inr Downloaded, emit (Ev_download (f_filename fi)) w3))))"

section \<open>The web job\<close>

record counts =
  downloaded :: nat
  skipped :: nat
  failed :: nat
  dryrun :: nat

definition zero_counts :: counts where
  "zero_counts = \<lparr>downloaded = 0, skipped = 0, failed = 0, dryrun = 0\<rparr>"

text \<open>\<open>counts[result] = counts.get(result, 0) + 1\<close>\<close>

fun bump :: "outcome \<Rightarrow> counts \<Rightarrow> counts" where
  "bump Downloaded c = c\<lparr>downloaded := downloaded c + 1\<rparr>"
| "bump Skipped c = c\<lparr>skipped := skipped c + 1\<rparr>"
| "bump Failed c = c\<lparr>failed := failed c + 1\<rparr>"
| "bump Dryrun c = c\<lparr>dryrun := dryrun c + 1\<rparr>"

text \<open>
  \<open>ThreadPoolExecutor(max_workers=n)\<close> raises \<open>ValueError\<close> unless \<open>n\<close> is positive;
  the pool it makes has \<open>n\<close> workers.
\<close>

definition thread_pool :: "int \<Rightarrow> world \<Rightarrow> error + world" where
  "thread_pool n w = (if n \<le> 0 then Inl ValueError else Inr (did (IoPool n) w))"

text \<open>
  \<^verbatim>\<open>
  for es in sessions:
      files = scrape_session(http, es, emit)
      all_files.extend(files)
      emit("progress", json.dumps({"scanned": len(all_files)}))
  \<close>
\<close>

fun scan_sessions ::
  "libs \<Rightarrow> session list \<Rightarrow> file_info list \<Rightarrow> world \<Rightarrow> file_info list \<times> world" where
  "scan_sessions L [] all_files w = (all_files, w)"
| "scan_sessions L (es # rest) all_files w =
     (case scrape_session L es w of
        (fs, w1) \<Rightarrow>
          scan_sessions L rest (all_files @ fs)
            (emit (Ev_progress_scanned (length (all_files @ fs))) w1))"

text \<open>
  The download stage. Every file is submitted to the pool before any result is read,
  so every task runs; the tasks are taken one after the other, in the order of the
  list (the schedule of a pool with one worker), and a result is read as soon as its
  task ends:
  \<^verbatim>\<open>
  for future in concurrent.futures.as_completed(futures):
      result = future.result()
      counts[result] = counts.get(result, 0) + 1
      done += 1
      emit("progress", json.dumps({"done": done, "total": total}))
  \<close>
  \<open>future.result()\<close> raises what the task raised; leaving the \<open>with\<close> block then waits
  for the tasks still in the pool (\<open>drain\<close>), whose results are never read.
\<close>

fun drain :: "libs \<Rightarrow> file_info list \<Rightarrow> string \<Rightarrow> bool \<Rightarrow> world \<Rightarrow> world" where
  "drain L [] root dry_run w = w"
| "drain L (fi # fis) root dry_run w = drain L fis root dry_run (snd (download_file L fi root dry_run w))"

fun download_stage ::
  "libs \<Rightarrow> file_info list \<Rightarrow> string \<Rightarrow> bool \<Rightarrow> counts \<Rightarrow> nat \<Rightarrow> nat \<Rightarrow> world
   \<Rightarrow> (error + counts) \<times> world" where
  "download_stage L [] root dry_run c n_done n_total w = (Inr c, w)"
| "download_stage L (fi # fis) root dry_run c n_done n_total w =
     (case download_file L fi root dry_run w of
        (Inl e, w1) \<Rightarrow> (Inl e, drain L fis root dry_run w1)
      | (Inr r, w1) \<Rightarrow>
          download_stage L fis root dry_run (bump r c) (Suc n_done) n_total
            (emit (Ev_progress_done (Suc n_done) n_total) w1))"

definition finish :: "world \<Rightarrow> world" where
  "finish w = w\<lparr>job_active := False\<rparr>"

definition unexpected :: "world \<Rightarrow> world" where
  "unexpected w = emit (Ev_done 0 0 0 0) (emit Ev_error_unexpected w)"

text \<open>
  \<^verbatim>\<open>
  def run_job(grade_filters, year_filters, output_dir, dry_run, threads):
      try:
          http     = _session()
          sessions = scrape_index(http, grade_filters, year_filters, emit)
          if not sessions:
              emit("done", json.dumps({"dl": 0, "skip": 0, "fail": 0, "dry": 0}))
              return
          all_files = []
          for es in sessions: ...
          emit("info", f"Total files found: ...")
          counts = {"downloaded": 0, "skipped": 0, "failed": 0, "dryrun": 0}
          with concurrent.futures.ThreadPoolExecutor(max_workers=threads) as pool:
              ...
          emit("done", json.dumps({"dl": counts["downloaded"], ...}))
      except Exception as e:
          emit("error", f"Unexpected error: {e}")
          emit("done", json.dumps({"dl": 0, "skip": 0, "fail": 0, "dry": 0}))
      finally:
          _job_active = False
  \<close>
\<close>

definition run_job ::
  "libs \<Rightarrow> string list \<Rightarrow> string list \<Rightarrow> string \<Rightarrow> bool \<Rightarrow> int \<Rightarrow> world \<Rightarrow> world" where
  "run_job L grade_filters year_filters output_dir dry_run threads w =
     (case scrape_index L grade_filters year_filters w of
        (sessions, w1) \<Rightarrow>
          if sessions = [] then finish (emit (Ev_done 0 0 0 0) w1)
          else case scan_sessions L sessions [] w1 of
            (all_files, w2) \<Rightarrow>
              (case thread_pool threads (emit (Ev_info_total (length all_files)) w2) of
                 Inl e \<Rightarrow> finish (unexpected (emit (Ev_info_total (length all_files)) w2))
               | Inr w3 \<Rightarrow>
                   (case download_stage L all_files output_dir dry_run zero_counts 0
                           (length all_files) w3 of
                      (Inl e, w4) \<Rightarrow> finish (unexpected w4)
                    | (Inr c, w4) \<Rightarrow>
                        finish (emit (Ev_done (downloaded c) (skipped c) (failed c) (dryrun c)) w4))))"

text \<open>
  The two request handlers that touch the job. \<open>start\<close> refuses while a job is
  active; otherwise it builds the arguments of \<open>run_job\<close>, makes a fresh queue and sets
  the flag (the thread it starts then runs \<open>run_job\<close> on these arguments):
  \<^verbatim>\<open>
  output_dir   = data.get("output_dir", "downloads").strip() or "downloads"
  dry_run      = bool(data.get("dry_run", False))
  threads      = max(1, min(10, int(data.get("threads", 3))))
  grade_filters = [f"Grade {g}" for g in grades_raw] if grades_raw else []
  year_filters  = [str(y) for y in years_raw] if years_raw else []
  \<close>
  \<open>stop\<close> clears the flag.
\<close>

record job_args =
  a_grade_filters :: "string list"
  a_year_filters :: "string list"
  a_output_dir :: string
  a_dry_run :: bool
  a_threads :: int

definition start ::
  "string list \<Rightarrow> string list \<Rightarrow> string \<Rightarrow> bool \<Rightarrow> int \<Rightarrow> world \<Rightarrow> (error + job_args) \<times> world" where
  "start grades_raw years_raw output_dir dry_run threads w =
     (if job_active w then (Inl Conflict409, w)
      else (Inr \<lparr>a_grade_filters = map (\<lambda>g. ''Grade '' @ g) grades_raw,
                 a_year_filters = years_raw,
                 a_output_dir = (if strip output_dir = [] then ''downloads'' else strip output_dir),
                 a_dry_run = dry_run,
                 a_threads = max 1 (min 10 threads)\<rparr>,
            w\<lparr>events := [], job_active := True\<rparr>))"

definition stop :: "world \<Rightarrow> world" where
  "stop w = w\<lparr>job_active := False\<rparr>"

definition run_args :: "libs \<Rightarrow> job_args \<Rightarrow> world \<Rightarrow> world" where
  "run_args L a w =
     run_job L (a_grade_filters a) (a_year_filters a) (a_output_dir a) (a_dry_run a) (a_threads a) w"

section \<open>The command-line script\<close>

text \<open>
  The script has the pipeline a second time, without events (it writes to the log and
  to standard output, which are not modelled) and with one optional grade filter and
  one optional year filter; a filter that is \<open>None\<close> or empty is no filter:
  \<^verbatim>\<open>
  if grade_filter and grade_filter not in grade: continue
  if year_filter and year_filter != year: continue
  \<close>
  The rest of the loop body is that of the web job.
\<close>

definition cli_index_step ::
  "libs \<Rightarrow> string option \<Rightarrow> string option \<Rightarrow> session list \<Rightarrow> string \<times> string \<Rightarrow> session list" where
  "cli_index_step L grade_filter year_filter sessions a =
     (let href = strip (fst a); link_text = snd a
      in if list_ex (\<lambda>p. prefix p href) skip_prefixes then sessions
         else if \<not> suffix ''.htm'' href then sessions
         else let full_url = urljoin L BASE_URL href
              in if full_url = INDEX_URL then sessions
                 else if link_text = [] \<or> length link_text < 5 then sessions
                 else let yr = link_year link_text href;
                          gr = link_grade link_text href;
                          ti = sanitise link_text
                      in if (case grade_filter of
                               None \<Rightarrow> False
                             | Some gf \<Rightarrow> gf \<noteq> [] \<and> \<not> contains gr gf) then sessions
                         else if (case year_filter of
                                    None \<Rightarrow> False
                                  | Some yf \<Rightarrow> yf \<noteq> [] \<and> yf \<noteq> yr) then sessions
                         else if list_ex (\<lambda>s. s_url s = full_url) sessions then sessions
                         else sessions @
                           [\<lparr>s_url = full_url, s_title = ti, s_grade = gr, s_year = yr\<rparr>])"

text \<open>
  \<^verbatim>\<open>
  r = safe_get(session, INDEX_URL)
  if r is None:
      raise RuntimeError("Could not fetch the index page.")
  \<close>
\<close>

definition cli_scrape_index ::
  "libs \<Rightarrow> string option \<Rightarrow> string option \<Rightarrow> world \<Rightarrow> (error + session list) \<times> world" where
  "cli_scrape_index L grade_filter year_filter w =
     (case safe_get L INDEX_URL w of
        (None, w1) \<Rightarrow> (Inl RuntimeError, w1)
      | (Some page, w1) \<Rightarrow>
          (Inr (foldl (cli_index_step L grade_filter year_filter) [] (find_links L page)), w1))"

text \<open>\<open>scrape_session_page\<close>: the loop body of the web job after \<open>if not href: continue\<close>.\<close>

definition cli_session_step ::
  "libs \<Rightarrow> session \<Rightarrow> file_info list \<times> string set \<Rightarrow> string \<times> string
   \<Rightarrow> file_info list \<times> string set" where
  "cli_session_step L es st a =
     (if strip (fst a) = [] then st else session_step L es st a)"

definition scrape_session_page :: "libs \<Rightarrow> session \<Rightarrow> world \<Rightarrow> file_info list \<times> world" where
  "scrape_session_page L es w =
     (case safe_get L (s_url es) w of
        (None, w1) \<Rightarrow> ([], w1)
      | (Some page, w1) \<Rightarrow>
          (fst (foldl (cli_session_step L es) ([], {}) (find_links L page)), w1))"

definition cli_download_file ::
  "libs \<Rightarrow> file_info \<Rightarrow> string \<Rightarrow> bool \<Rightarrow> world \<Rightarrow> (error + outcome) \<times> world" where
  "cli_download_file L fi root dry_run w =
     (let dest = dest_path root fi
      in if dry_run then (Inr Dryrun, w)
         else if path_exists w dest then (Inr Skipped, w)
         else case mkdir_parents (dest_dir root fi) (did (IoMkdir (dest_dir root fi)) w) of
                (Some e, w1) \<Rightarrow> (Inl e, w1)
              | (None, w1) \<Rightarrow>
                  (case safe_get L (f_url fi) w1 of
                     (None, w2) \<Rightarrow> (Inr Failed, w2)
                   | (Some content, w2) \<Rightarrow>
                       (case write_bytes dest content w2 of
                          Inl e \<Rightarrow> (Inl e, w2)
                        | Inr w3 \<Rightarrow> (Inr Downloaded, w3))))"

fun cli_scan ::
  "libs \<Rightarrow> session list \<Rightarrow> file_info list \<Rightarrow> world \<Rightarrow> file_info list \<times> world" where
  "cli_scan L [] all_files w = (all_files, w)"
| "cli_scan L (es # rest) all_files w =
     (case scrape_session_page L es w of
        (fs, w1) \<Rightarrow> cli_scan L rest (all_files @ fs) w1)"

fun cli_drain :: "libs \<Rightarrow> file_info list \<Rightarrow> string \<Rightarrow> bool \<Rightarrow> world \<Rightarrow> world" where
  "cli_drain L [] root dry_run w = w"
| "cli_drain L (fi # fis) root dry_run w =
     cli_drain L fis root dry_run (snd (cli_download_file L fi root dry_run w))"

text \<open>
  \<^verbatim>\<open>
  s = result["status"]
  if s == "downloaded": downloaded += 1
  elif s == "failed":   failed += 1
  elif s == "dry-run":  dry_count += 1
  else:                 skipped += 1
  \<close>
\<close>

fun cli_download_stage ::
  "libs \<Rightarrow> file_info list \<Rightarrow> string \<Rightarrow> bool \<Rightarrow> counts \<Rightarrow> world \<Rightarrow> (error + counts) \<times> world" where
  "cli_download_stage L [] root dry_run c w = (Inr c, w)"
| "cli_download_stage L (fi # fis) root dry_run c w =
     (case cli_download_file L fi root dry_run w of
        (Inl e, w1) \<Rightarrow> (Inl e, cli_drain L fis root dry_run w1)
      | (Inr r, w1) \<Rightarrow>
          cli_download_stage L fis root dry_run
            (if r = Downloaded then c\<lparr>downloaded := downloaded c + 1\<rparr>
             else if r = Failed then c\<lparr>failed := failed c + 1\<rparr>
             else if r = Dryrun then c\<lparr>dryrun := dryrun c + 1\<rparr>
             else c\<lparr>skipped := skipped c + 1\<rparr>) w1)"

record cli_args =
  arg_grade :: "string option"
  arg_year :: "string option"
  arg_dry_run :: bool
  arg_threads :: int
  arg_output_dir :: string

datatype cli_end = No_sessions | No_files | Summary counts

text \<open>
  \<^verbatim>\<open>
  grade_filter = f"Grade {args.grade}" if args.grade else None
  year_filter = args.year
  exam_sessions = scrape_index(http, grade_filter, year_filter)
  if not exam_sessions: ...; return
  for es in exam_sessions: all_files.extend(scrape_session_page(http, es))
  if not all_files: ...; return
  with ThreadPoolExecutor(max_workers=args.threads) as pool: ...
  \<close>
  \<open>main\<close> catches nothing: an exception leaves it, and the process, as \<open>Inl\<close>.
\<close>

definition main :: "libs \<Rightarrow> cli_args \<Rightarrow> world \<Rightarrow> (error + cli_end) \<times> world" where
  "main L args w =
     (let grade_filter = (case arg_grade args of
                            None \<Rightarrow> None
                          | Some g \<Rightarrow> if g = [] then None else Some (''Grade '' @ g))
      in case cli_scrape_index L grade_filter (arg_year args) w of
           (Inl e, w1) \<Rightarrow> (Inl e, w1)
         | (Inr exam_sessions, w1) \<Rightarrow>
             if exam_sessions = [] then (Inr No_sessions, w1)
             else case cli_scan L exam_sessions [] w1 of
               (all_files, w2) \<Rightarrow>
                 if all_files = [] then (Inr No_files, w2)
                 else case thread_pool (arg_threads args) w2 of
                   Inl e \<Rightarrow> (Inl e, w2)
                 | Inr w3 \<Rightarrow>
                     (case cli_download_stage L all_files (arg_output_dir args)
                             (arg_dry_run args) zero_counts w3 of
                        (Inl e, w4) \<Rightarrow> (Inl e, w4)
                      | (Inr c, w4) \<Rightarrow> (Inr (Summary c), w4)))"

section \<open>A small archive to run the pipeline on\<close>

text \<open>
  An index page with two session links, and one paper behind the first of them. The
  library functions are given on the few addresses of this archive, where they agree
  with the real ones. \<open>dead_net\<close> is the same archive with the server unreachable, and
  \<open>no_paper\<close> the archive with the paper's download failing.
\<close>

definition demo_get :: "nat \<Rightarrow> string \<Rightarrow> string option" where
  "demo_get n u =
     (if u = INDEX_URL then Some ''index page''
      else if u = ''https://www.ecexams.co.za/2023_nov_gr12.htm'' then Some ''session page''
      else if u = ''https://www.ecexams.co.za/maths_p1.pdf'' then Some ''%PDF maths''
      else None)"

definition demo_links :: "string \<Rightarrow> (string \<times> string) list" where
  "demo_links page =
     (if page = ''index page''
      then [(''2023_nov_gr12.htm'', ''Grade 12 November Examination 2023''),
            (''gec2021.htm'', ''GEC November Paper'')]
      else if page = ''session page'' then [(''maths_p1.pdf'', ''Maths P1: Paper'')]
      else [])"

definition demo :: libs where
  "demo = \<lparr>http_get = demo_get, find_links = demo_links,
            urljoin = (\<lambda>base href. BASE_URL @ href),
            path_suffix = dropWhile (\<lambda>c. c \<noteq> CHR ''.''),
            path_stem = takeWhile (\<lambda>c. c \<noteq> CHR ''.'')\<rparr>"

definition dead_net :: libs where
  "dead_net = demo\<lparr>http_get := (\<lambda>n u. None)\<rparr>"

definition no_paper :: libs where
  "no_paper = demo\<lparr>http_get := (\<lambda>n u. if u = ''https://www.ecexams.co.za/maths_p1.pdf''
                                        then None else demo_get n u)\<rparr>"

definition world0 :: world where
  "world0 = \<lparr>files = Map.empty, dirs = {}, io_trace = [], events = [], job_active = False\<rparr>"

definition maths_p1 :: file_info where
  "maths_p1 =
     \<lparr>f_url = ''https://www.ecexams.co.za/maths_p1.pdf'', f_filename = ''Maths P1 Paper.pdf'',
      f_session = \<lparr>s_url = ''https://www.ecexams.co.za/2023_nov_gr12.htm'',
                   s_title = ''Grade 12 November Examination 2023'',
                   s_grade = ''Grade 12'', s_year = ''2023''\<rparr>\<rparr>"

text \<open>
  A file of a session whose title is \<open>..\<close> (the link text \<open>..???\<close> is sanitised to
  it), and the world after a first, failed attempt to download the paper.
\<close>

definition dotted :: file_info where
  "dotted =
     \<lparr>f_url = ''https://www.ecexams.co.za/maths_p1.pdf'', f_filename = ''Maths P1 Paper.pdf'',
      f_session = \<lparr>s_url = ''https://www.ecexams.co.za/2023_nov_gr12.htm'',
                   s_title = ''..'', s_grade = ''Grade 12'', s_year = ''2023''\<rparr>\<rparr>"

definition retry_world :: world where
  "retry_world = snd (download_file no_paper maths_p1 ''downloads'' False world0)"

section \<open>Invariants used in the proofs\<close>

text \<open>
  A string in which white space only occurs as single spaces, each followed by a
  character that is not white space or by the end of the string.
\<close>

fun ws_ok :: "string \<Rightarrow> bool" where
  "ws_ok [] = True"
| "ws_ok [c] = (\<not> is_space c \<or> c = CHR '' '')"
| "ws_ok (c # d # cs) =
     ((\<not> is_space c \<or> (c = CHR '' '' \<and> \<not> is_space d)) \<and> ws_ok (d # cs))"


text \<open>
  The links of the index page that the loop does not skip before it looks at the
  filters, the session the loop makes of a link, and the two filter tests.
\<close>

definition listed :: "libs \<Rightarrow> string \<times> string \<Rightarrow> bool" where
  "listed L a =
     (\<not> list_ex (\<lambda>p. prefix p (strip (fst a))) skip_prefixes
      \<and> suffix ''.htm'' (strip (fst a))
      \<and> urljoin L BASE_URL (strip (fst a)) \<noteq> INDEX_URL
      \<and> 5 \<le> length (snd a))"

definition session_of :: "libs \<Rightarrow> string \<times> string \<Rightarrow> session" where
  "session_of L a =
     \<lparr>s_url = urljoin L BASE_URL (strip (fst a)), s_title = sanitise (snd a),
      s_grade = link_grade (snd a) (strip (fst a)), s_year = link_year (snd a) (strip (fst a))\<rparr>"

definition passes :: "string list \<Rightarrow> string list \<Rightarrow> session \<Rightarrow> bool" where
  "passes grade_filters year_filters s =
     ((grade_filters = [] \<or> (\<exists>gf\<in>set grade_filters. contains (s_grade s) gf))
      \<and> (year_filters = [] \<or> s_year s \<in> set year_filters))"

text \<open>
  The world after the fetch client has made \<open>fails\<close> failed and \<open>oks\<close> successful
  requests for an address.
\<close>

definition after_gets :: "bool \<Rightarrow> string \<Rightarrow> nat \<Rightarrow> nat \<Rightarrow> world \<Rightarrow> world" where
  "after_gets em u fails oks w =
     w\<lparr>io_trace := io_trace w @ replicate (fails + oks) (IoGet u),
       events := events w @ (if em then map (\<lambda>i. Ev_warn_retry i u) [1..<Suc fails] else [])\<rparr>"

text \<open>The number of outcomes counted, and the files a web job finds.\<close>

definition total :: "counts \<Rightarrow> nat" where
  "total c = downloaded c + skipped c + failed c + dryrun c"

definition job_files :: "libs \<Rightarrow> string list \<Rightarrow> string list \<Rightarrow> world \<Rightarrow> file_info list" where
  "job_files L grade_filters year_filters w =
     (case scrape_index L grade_filters year_filters w of
        (sessions, w1) \<Rightarrow> if sessions = [] then [] else fst (scan_sessions L sessions [] w1))"

text \<open>The files the command-line script finds.\<close>

definition cli_files :: "libs \<Rightarrow> cli_args \<Rightarrow> world \<Rightarrow> file_info list" where
  "cli_files L args w =
     (case cli_scrape_index L
             (case arg_grade args of
                None \<Rightarrow> None
              | Some g \<Rightarrow> if g = [] then None else Some (''Grade '' @ g))
             (arg_year args) w of
        (Inl e, w1) \<Rightarrow> []
      | (Inr exam_sessions, w1) \<Rightarrow> fst (cli_scan L exam_sessions [] w1))"

text \<open>
  What a download that went past the test for the destination has done: the
  directories are a superset, the destination's directory is there, the set of
  directories is the old one exactly if that directory was there already; then three
  requests and no other change, or at most three requests and the file written.
\<close>

definition fetched :: "file_info \<Rightarrow> string \<Rightarrow> outcome \<Rightarrow> world \<Rightarrow> world \<Rightarrow> bool" where
  "fetched fi root r w w' =
     (dirs w \<subseteq> dirs w' \<and> path_is_dir w' (dest_dir root fi)
      \<and> (dirs w' = dirs w) = path_is_dir w (dest_dir root fi)
      \<and> job_active w' = job_active w
      \<and> (if r = Failed
          then files w' = files w
               \<and> io_trace w' = io_trace w @ [IoMkdir (dest_dir root fi)]
                    @ replicate 3 (IoGet (f_url fi))
          else r = Downloaded
               \<and> (\<exists>n q content. 0 < n \<and> n \<le> 3
                     \<and> io_trace w' = io_trace w @ [IoMkdir (dest_dir root fi)]
                          @ replicate n (IoGet (f_url fi)) @ [IoWrite (dest_path root fi)]
                     \<and> resolve w' (dest_path root fi) = Inr q
                     \<and> files w' = (files w)(q \<mapsto> content))))"

section \<open>The sanitiser\<close>

lemma sanitise_length: "length (sanitise name) \<le> 120"
  by (simp add: sanitise_def)

lemma is_space_blank: "is_space (CHR '' '')"
  by (simp add: is_space_def)

lemma ws_ok_Cons:
  "ws_ok (c # cs) =
     ((\<not> is_space c \<or> (c = CHR '' '' \<and> (cs = [] \<or> \<not> is_space (hd cs)))) \<and> ws_ok cs)"
  by (cases cs) simp_all

lemma hd_collapse_ws: "s \<noteq> [] \<Longrightarrow> \<not> is_space (hd s) \<Longrightarrow> hd (collapse_ws s) = hd s"
  by (cases s) simp_all

lemma ws_ok_collapse_ws: "ws_ok (collapse_ws s)"
proof (induction s rule: collapse_ws.induct)
  case 1
  show ?case by simp
next
  case (2 c cs)
  show ?case
  proof (cases "is_space c")
    case True
    define r where "r = dropWhile is_space cs"
    have ih: "ws_ok (collapse_ws r)" using 2(1)[OF True] by (simp add: r_def)
    have nx: "collapse_ws r = [] \<or> \<not> is_space (hd (collapse_ws r))"
    proof (cases "r = []")
      case True
      then show ?thesis by simp
    next
      case False
      then have "\<not> is_space (hd r)" unfolding r_def by (rule hd_dropWhile)
      with False show ?thesis by (simp add: hd_collapse_ws)
    qed
    have "collapse_ws (c # cs) = CHR '' '' # collapse_ws r"
      using True by (simp add: r_def)
    with ih nx show ?thesis by (simp only: ws_ok_Cons) simp
  next
    case False
    then have "collapse_ws (c # cs) = c # collapse_ws cs" by simp
    with False 2(2) show ?thesis by (simp only: ws_ok_Cons) simp
  qed
qed

lemma collapse_ws_fixed: "ws_ok s \<Longrightarrow> collapse_ws s = s"
proof (induction s rule: collapse_ws.induct)
  case 1
  show ?case by simp
next
  case (2 c cs)
  from 2(3) have ok: "ws_ok cs"
    and hd: "\<not> is_space c \<or> (c = CHR '' '' \<and> (cs = [] \<or> \<not> is_space (hd cs)))"
    by (simp_all only: ws_ok_Cons)
  show ?case
  proof (cases "is_space c")
    case True
    with hd have c: "c = CHR '' ''" and nx: "cs = [] \<or> \<not> is_space (hd cs)" by simp_all
    from nx have d: "dropWhile is_space cs = cs" by (cases cs) simp_all
    from 2(1)[OF True] ok d have "collapse_ws cs = cs" by simp
    with True c d show ?thesis by simp
  next
    case False
    with 2(2) ok show ?thesis by simp
  qed
qed

lemma ws_ok_take: "ws_ok s \<Longrightarrow> ws_ok (take n s)"
proof (induction s arbitrary: n rule: ws_ok.induct)
  case 1
  show ?case by simp
next
  case (2 c)
  then show ?case by (cases n) simp_all
next
  case (3 c d cs)
  show ?case
  proof (cases n)
    case 0
    then show ?thesis by simp
  next
    case (Suc m)
    from 3(2) have ok: "ws_ok (d # cs)"
      and c: "\<not> is_space c \<or> (c = CHR '' '' \<and> \<not> is_space d)"
      by simp_all
    from 3(1)[OF ok, of m] have ih: "ws_ok (take m (d # cs))" .
    show ?thesis
    proof (cases m)
      case 0
      with Suc c show ?thesis by auto
    next
      case (Suc k)
      with ih have "ws_ok (d # take k cs)" by simp
      with Suc \<open>n = Suc m\<close> c show ?thesis by simp
    qed
  qed
qed

lemma ws_ok_drop: "ws_ok s \<Longrightarrow> ws_ok (drop n s)"
proof (induction n arbitrary: s)
  case 0
  then show ?case by simp
next
  case (Suc n)
  show ?case
  proof (cases s)
    case Nil
    then show ?thesis by simp
  next
    case (Cons c cs)
    with Suc(2) have "ws_ok cs" by (simp only: ws_ok_Cons)
    from Suc(1)[OF this] Cons show ?thesis by simp
  qed
qed

text \<open>\<open>strip\<close> cuts a piece out of the middle of its argument.\<close>

lemma strip_as_take_drop:
  "strip s =
     take (length (dropWhile is_space s) - length (takeWhile is_space (rev (dropWhile is_space s))))
       (drop (length (takeWhile is_space s)) s)"
proof -
  let ?t = "dropWhile is_space s"
  have "strip s = rev (drop (length (takeWhile is_space (rev ?t))) (rev ?t))"
    by (simp add: strip_def dropWhile_eq_drop[symmetric])
  also have "\<dots> = take (length ?t - length (takeWhile is_space (rev ?t))) ?t"
    by (simp add: rev_drop)
  finally show ?thesis
    by (simp add: dropWhile_eq_drop[symmetric])
qed

lemma ws_ok_strip: "ws_ok s \<Longrightarrow> ws_ok (strip s)"
  by (subst strip_as_take_drop) (intro ws_ok_take ws_ok_drop)

lemma set_strip: "set (strip s) \<subseteq> set s"
proof -
  have "set (strip s) \<subseteq> set (drop (length (takeWhile is_space s)) s)"
    by (subst strip_as_take_drop) (rule set_take_subset)
  also have "\<dots> \<subseteq> set s" by (rule set_drop_subset)
  finally show ?thesis .
qed

lemma length_strip: "length (strip s) \<le> length s"
  by (subst strip_as_take_drop) simp

lemma strip_strip: "strip (strip s) = strip s"
proof -
  define t where "t = dropWhile is_space s"
  define u where "u = rev (dropWhile is_space (rev t))"
  have u: "strip s = u" by (simp add: strip_def u_def t_def)
  have front: "dropWhile is_space u = u"
  proof (cases "u = []")
    case True
    then show ?thesis by simp
  next
    case False
    have "u = take (length t - length (takeWhile is_space (rev t))) t"
      by (simp add: u_def dropWhile_eq_drop rev_drop)
    with False have "t \<noteq> []" "hd u = hd t" by (auto simp: hd_take)
    with hd_dropWhile[of is_space s] have "\<not> is_space (hd u)" by (simp add: t_def)
    with False show ?thesis by (cases u) auto
  qed
  have "rev (dropWhile is_space (rev u)) = u" by (simp add: u_def)
  with front have "strip u = u" by (simp add: strip_def)
  then show ?thesis by (simp add: u)
qed

lemma set_collapse_ws: "set (collapse_ws s) \<subseteq> insert (CHR '' '') (set s)"
proof (induction s rule: collapse_ws.induct)
  case 1
  then show ?case by simp
next
  case (2 c cs)
  show ?case
  proof (cases "is_space c")
    case True
    have "set (dropWhile is_space cs) \<subseteq> set cs" by (auto dest: set_dropWhileD)
    with True 2 show ?thesis by auto
  next
    case False
    with 2 show ?thesis by auto
  qed
qed

lemma blank_legal: "CHR '' '' \<notin> set illegal_chars"
  by (simp add: illegal_chars_def)

lemma remove_illegal_fixed:
  assumes "set s \<subseteq> insert (CHR '' '') (set (remove_illegal x))"
  shows "remove_illegal s = s"
proof -
  have "\<forall>c\<in>set s. c \<notin> set illegal_chars"
    using assms blank_legal by (auto simp: remove_illegal_def)
  then show ?thesis by (simp add: remove_illegal_def filter_id_conv)
qed

lemma set_sanitise: "set (sanitise x) \<subseteq> insert (CHR '' '') (set (remove_illegal x))"
proof -
  have "set (sanitise x) \<subseteq> set (strip (collapse_ws (remove_illegal x)))"
    unfolding sanitise_def by (rule set_take_subset)
  also have "\<dots> \<subseteq> set (collapse_ws (remove_illegal x))" by (rule set_strip)
  also have "\<dots> \<subseteq> insert (CHR '' '') (set (remove_illegal x))" by (rule set_collapse_ws)
  finally show ?thesis .
qed


lemma sanitise_twice: "sanitise (sanitise x) = strip (sanitise x)"
proof -
  define y where "y = sanitise x"
  have r: "remove_illegal y = y"
    unfolding y_def using set_sanitise by (rule remove_illegal_fixed)
  have "ws_ok y" unfolding y_def sanitise_def
    by (intro ws_ok_take ws_ok_strip ws_ok_collapse_ws)
  then have c: "collapse_ws y = y" by (rule collapse_ws_fixed)
  have "length (strip y) \<le> length y" by (rule length_strip)
  also have "\<dots> \<le> 120" by (simp add: y_def sanitise_length)
  finally have "take 120 (strip y) = strip y" by simp
  with r c have "sanitise y = strip y" by (simp add: sanitise_def)
  then show ?thesis by (simp add: y_def)
qed

text \<open>
  Claim C4, as the code has it. Truncation comes after trimming, so a name cut at 120
  characters can end in a space, which a second application trims: applying the
  sanitiser twice gives the once-sanitised name trimmed. The sanitiser is idempotent
  on every input whose cleaned form (illegal characters removed, white space collapsed
  and trimmed) has at most 120 characters, and from the second application on.
\<close>

theorem sanitise_idempotent_amended:
  "sanitise (sanitise x) = strip (sanitise x)
   \<and> (length (strip (collapse_ws (remove_illegal x))) \<le> 120 \<longrightarrow> sanitise (sanitise x) = sanitise x)
   \<and> sanitise (sanitise (sanitise x)) = sanitise (sanitise x)"
proof (intro conjI impI)
  show "sanitise (sanitise x) = strip (sanitise x)" by (rule sanitise_twice)
next
  assume "length (strip (collapse_ws (remove_illegal x))) \<le> 120"
  then have "sanitise x = strip (collapse_ws (remove_illegal x))" by (simp add: sanitise_def)
  then have "strip (sanitise x) = sanitise x" by (simp add: strip_strip)
  then show "sanitise (sanitise x) = sanitise x" by (simp add: sanitise_twice)
next
  have "sanitise (sanitise (sanitise x)) = strip (sanitise (sanitise x))" by (rule sanitise_twice)
  also have "\<dots> = strip (strip (sanitise x))" by (simp add: sanitise_twice)
  also have "\<dots> = strip (sanitise x)" by (rule strip_strip)
  also have "\<dots> = sanitise (sanitise x)" by (simp add: sanitise_twice)
  finally show "sanitise (sanitise (sanitise x)) = sanitise (sanitise x)" .
qed

theorem sanitise_idempotent_witness:
  "sanitise (sanitise ''Maths  P1: Memo?'') = ''Maths P1 Memo''"
proof -
  have pre: "length (strip (collapse_ws (remove_illegal ''Maths  P1: Memo?''))) \<le> 120"
    by code_simp
  have val: "sanitise ''Maths  P1: Memo?'' = ''Maths P1 Memo''" by code_simp
  from sanitise_idempotent_amended[of "''Maths  P1: Memo?''"] pre
  have "sanitise (sanitise ''Maths  P1: Memo?'') = sanitise ''Maths  P1: Memo?''" by blast
  with val show ?thesis by simp
qed

text \<open>
  The claim as stated fails on a name whose cleaned form has a space as its 120th
  character: 119 letters, a space and one more letter.
\<close>

theorem sanitise_not_idempotent:
  "sanitise (sanitise (replicate 119 (CHR ''a'') @ '' b''))
     \<noteq> sanitise (replicate 119 (CHR ''a'') @ '' b'')"
  by code_simp

section \<open>The classifier\<close>

lemma lower_append: "lower (a @ b) = lower a @ lower b"
  by (simp add: lower_def)

lemma lower_Cons: "lower (c # cs) = lower_char c # lower cs"
  by (simp add: lower_def)

lemma grade_search_hit: "grade_match_at s = Some ds \<Longrightarrow> grade_search s = Some ds"
  by (cases s) (simp_all add: grade_match_at_def)

lemma grade_search_miss:
  "grade_match_at (c # cs) = None \<Longrightarrow> grade_search (c # cs) = grade_search cs"
  by simp

lemma grade12_vector_grade: "link_grade ''Grade 12 November Examination 2023'' href = ''Grade 12''"
proof -
  have l: "lower ''Grade 12 November Examination 2023'' = ''grade 12 november examination 2023''"
    by code_simp
  have "grade_match_at (''grade 12 november examination 2023'' @ rest) = Some ''12''" for rest
    by (simp add: grade_match_at_def is_space_def is_digit_def)
  then have "grade_search (''grade 12 november examination 2023'' @ rest) = Some ''12''" for rest
    by (rule grade_search_hit)
  then show ?thesis
    by (simp add: link_grade_def detect_grade_def lower_append l del: append.simps)
qed

lemma grade12_vector_year: "link_year ''Grade 12 November Examination 2023'' href = ''2023''"
proof -
  have "detect_year ''Grade 12 November Examination 2023'' = ''2023''" by code_simp
  then show ?thesis by (simp add: link_year_def)
qed

lemma year_search_token:
  assumes "\<forall>c\<in>set pre. \<not> is_digit c"
    and "if pre = [] then \<not> pw else \<not> is_word (last pre)"
    and "case post of [] \<Rightarrow> True | e # _ \<Rightarrow> \<not> is_word e"
    and "is_digit c" "is_digit d"
  shows "year_search pw (pre @ [CHR ''2'', CHR ''0'', c, d] @ post) = Some [CHR ''2'', CHR ''0'', c, d]"
  using assms
proof (induction pre arbitrary: pw)
  case Nil
  then show ?case by (simp add: year_match_at_def)
next
  case (Cons a pre)
  have nd: "\<not> is_digit a" using Cons.prems(1) by simp
  then have "a \<noteq> CHR ''2''" by (auto simp: is_digit_def)
  then have m: "year_match_at (a # rest) = None" for rest
    by (simp add: year_match_at_def split: list.splits)
  have ih: "year_search (is_word a) (pre @ [CHR ''2'', CHR ''0'', c, d] @ post) = Some [CHR ''2'', CHR ''0'', c, d]"
  proof (rule Cons.IH)
    show "\<forall>c\<in>set pre. \<not> is_digit c" using Cons.prems(1) by simp
    show "if pre = [] then \<not> is_word a else \<not> is_word (last pre)"
      using Cons.prems(2) by (auto split: if_splits)
  qed (use Cons.prems in auto)
  show ?case using ih m by simp
qed

lemma gec_vector_grade:
  assumes "grade_search (lower href) = None"
  shows "link_grade ''GEC November Paper'' href = ''Grade 9 (GEC)''"
proof -
  have l: "lower ''GEC November Paper '' = ''gec november paper ''"
    by code_simp
  have e: "lower (''GEC November Paper'' @ '' '' @ href) = ''gec november paper '' @ lower href"
  proof -
    have "''GEC November Paper'' @ '' '' @ href = ''GEC November Paper '' @ href" by simp
    then show ?thesis by (simp only: lower_append l)
  qed
  have "grade_search (''gec november paper '' @ rest) = grade_search rest" for rest
    by (simp add: grade_match_at_def)
  with assms have g: "grade_search (''gec november paper '' @ lower href) = None"
    by simp
  have c: "contains (''gec november paper '' @ rest) ''gec''" for rest
    by simp
  show ?thesis
    unfolding link_grade_def detect_grade_def e Let_def g using c by simp
qed

lemma other_grade:
  assumes "grade_search (lower t) = None"
    and "\<not> contains (lower t) ''gec''"
    and "\<not> contains (lower t) ''general education certificate''"
    and "\<not> contains (lower t) ''annual national assessment''"
    and "\<not> contains (lower t) '' ana''"
  shows "detect_grade t = ''Other''"
  using assms by (simp add: detect_grade_def)

lemma first_rule_wins:
  "grade_search (lower t) = Some ds \<Longrightarrow> detect_grade t = ''Grade '' @ ds"
  by (simp add: detect_grade_def)

lemma gec_vector_year:
  assumes "\<forall>c\<in>set pre. \<not> is_digit c"
    and "if pre = [] then True else \<not> is_word (last pre)"
    and "case post of [] \<Rightarrow> True | e # _ \<Rightarrow> \<not> is_word e"
  shows "link_year ''GEC November Paper'' (pre @ ''2021'' @ post) = ''2021''"
proof -
  have t: "detect_year ''GEC November Paper'' = ''Unknown Year''" by code_simp
  have d: "is_digit (CHR ''2'')" "is_digit (CHR ''1'')" by (simp_all add: is_digit_def)
  have "year_search False (pre @ [CHR ''2'', CHR ''0'', CHR ''2'', CHR ''1''] @ post)
          = Some [CHR ''2'', CHR ''0'', CHR ''2'', CHR ''1'']"
    using assms d by (intro year_search_token) (auto split: if_splits)
  then have "detect_year (pre @ ''2021'' @ post) = ''2021''"
    by (simp add: detect_year_def)
  with t show ?thesis by (simp add: link_year_def)
qed

text \<open>
  Claim C7, as the code has it. The year pattern asks for a word boundary on both
  sides, so an \<open>href\<close> gives the year only where it stands as a token of its own; and
  the grade is looked for in the text followed by the \<open>href\<close>, so the \<open>href\<close> must
  carry no grade pattern for the second rule to be reached. With that:
  the text "Grade 12 November Examination 2023" gives grade "Grade 12" and year "2023"
  whatever the \<open>href\<close>; the text "GEC November Paper" gives grade "Grade 9 (GEC)" when the
  \<open>href\<close> has no grade pattern, and year "2021" when the \<open>href\<close> has "2021" with no digit
  before it and no word character next to it; a text on which no rule fires gives
  "Other"; and the year of a link is the text's year unless the text has none.
\<close>

theorem classifier_vectors_amended:
  "link_grade ''Grade 12 November Examination 2023'' href = ''Grade 12''
   \<and> link_year ''Grade 12 November Examination 2023'' href = ''2023''
   \<and> (grade_search (lower href2) = None
        \<longrightarrow> link_grade ''GEC November Paper'' href2 = ''Grade 9 (GEC)'')
   \<and> ((\<forall>c\<in>set pre. \<not> is_digit c) \<and> (pre = [] \<or> \<not> is_word (last pre))
        \<and> (post = [] \<or> \<not> is_word (hd post))
        \<longrightarrow> link_year ''GEC November Paper'' (pre @ ''2021'' @ post) = ''2021'')
   \<and> (grade_search (lower t) = None \<and> \<not> contains (lower t) ''gec''
        \<and> \<not> contains (lower t) ''general education certificate''
        \<and> \<not> contains (lower t) ''annual national assessment''
        \<and> \<not> contains (lower t) '' ana''
        \<longrightarrow> detect_grade t = ''Other'')
   \<and> (detect_year txt \<noteq> ''Unknown Year'' \<longrightarrow> link_year txt h = detect_year txt)
   \<and> (detect_year txt = ''Unknown Year'' \<longrightarrow> link_year txt h = detect_year h)"
proof (intro conjI impI)
  show "link_grade ''Grade 12 November Examination 2023'' href = ''Grade 12''"
    by (rule grade12_vector_grade)
  show "link_year ''Grade 12 November Examination 2023'' href = ''2023''"
    by (rule grade12_vector_year)
next
  assume "grade_search (lower href2) = None"
  then show "link_grade ''GEC November Paper'' href2 = ''Grade 9 (GEC)''"
    by (rule gec_vector_grade)
next
  assume a: "(\<forall>c\<in>set pre. \<not> is_digit c) \<and> (pre = [] \<or> \<not> is_word (last pre))
        \<and> (post = [] \<or> \<not> is_word (hd post))"
  show "link_year ''GEC November Paper'' (pre @ ''2021'' @ post) = ''2021''"
  proof (rule gec_vector_year)
    show "\<forall>c\<in>set pre. \<not> is_digit c" using a by simp
    show "if pre = [] then True else \<not> is_word (last pre)" using a by auto
    show "case post of [] \<Rightarrow> True | e # _ \<Rightarrow> \<not> is_word e"
      using a by (cases post) auto
  qed
next
  assume "grade_search (lower t) = None \<and> \<not> contains (lower t) ''gec''
        \<and> \<not> contains (lower t) ''general education certificate''
        \<and> \<not> contains (lower t) ''annual national assessment''
        \<and> \<not> contains (lower t) '' ana''"
  then show "detect_grade t = ''Other''" by (intro other_grade) simp_all
next
  assume "detect_year txt \<noteq> ''Unknown Year''"
  then show "link_year txt h = detect_year txt" by (simp add: link_year_def)
next
  assume "detect_year txt = ''Unknown Year''"
  then show "link_year txt h = detect_year h" by (simp add: link_year_def)
qed

theorem classifier_vectors_witness:
  "link_grade ''GEC November Paper'' ''papers/2021/gec.htm'' = ''Grade 9 (GEC)''
   \<and> link_year ''GEC November Paper'' ''papers/2021/gec.htm'' = ''2021''
   \<and> detect_grade ''November Examination'' = ''Other''
   \<and> link_year ''November Paper'' ''nov/2019.htm'' = ''2019''"
proof -
  have g: "grade_search (lower ''papers/2021/gec.htm'') = None" by code_simp
  have p: "(\<forall>c\<in>set ''papers/''. \<not> is_digit c) \<and> (''papers/'' = [] \<or> \<not> is_word (last ''papers/''))
        \<and> (''/gec.htm'' = [] \<or> \<not> is_word (hd ''/gec.htm''))"
    by code_simp
  have o: "grade_search (lower ''November Examination'') = None
        \<and> \<not> contains (lower ''November Examination'') ''gec''
        \<and> \<not> contains (lower ''November Examination'') ''general education certificate''
        \<and> \<not> contains (lower ''November Examination'') ''annual national assessment''
        \<and> \<not> contains (lower ''November Examination'') '' ana''"
    by code_simp
  have u: "detect_year ''November Paper'' = ''Unknown Year''" by code_simp
  have y: "detect_year ''nov/2019.htm'' = ''2019''" by code_simp
  have e: "''papers/'' @ ''2021'' @ ''/gec.htm'' = ''papers/2021/gec.htm''" by simp
  from classifier_vectors_amended
         [of "''x.htm''" "''papers/2021/gec.htm''" "''papers/''" "''/gec.htm''"
             "''November Examination''" "''November Paper''" "''nov/2019.htm''"]
    g p o u y e
  show ?thesis by (simp del: append.simps)
qed

text \<open>
  The claim as stated fails on an \<open>href\<close> that contains "2021" next to a letter or an
  underscore: no word boundary, no year.
\<close>

theorem classifier_href_year_counterexample:
  "contains ''gec2021.htm'' ''2021''
   \<and> link_year ''GEC November Paper'' ''gec2021.htm'' = ''Unknown Year''
   \<and> contains ''2021_gec.htm'' ''2021''
   \<and> link_year ''GEC November Paper'' ''2021_gec.htm'' = ''Unknown Year''"
  by code_simp

section \<open>The file names of the session extractor\<close>











section \<open>The filters of the index extractor\<close>

lemma index_step_cases:
  "index_step L gfs yfs ss a =
     (if listed L a \<and> passes gfs yfs (session_of L a)
         \<and> s_url (session_of L a) \<notin> s_url ` set ss
      then ss @ [session_of L a] else ss)"
  by (auto simp: index_step_def Let_def listed_def passes_def session_of_def list_ex_iff
      not_less intro: rev_image_eqI)

lemma foldl_index_step_sound:
  assumes "\<forall>s\<in>set ss. \<exists>a\<in>A. listed L a \<and> s = session_of L a \<and> passes gfs yfs s"
    and "set as \<subseteq> A"
  shows "\<forall>s\<in>set (foldl (index_step L gfs yfs) ss as).
           \<exists>a\<in>A. listed L a \<and> s = session_of L a \<and> passes gfs yfs s"
  using assms
proof (induction as arbitrary: ss)
  case Nil
  then show ?case by simp
next
  case (Cons a as)
  have "\<forall>s\<in>set (index_step L gfs yfs ss a).
          \<exists>a\<in>A. listed L a \<and> s = session_of L a \<and> passes gfs yfs s"
    using Cons.prems by (auto simp: index_step_cases)
  with Cons show ?case by simp
qed

lemma foldl_index_step_mono:
  "s_url ` set ss \<subseteq> s_url ` set (foldl (index_step L gfs yfs) ss as)"
proof (induction as arbitrary: ss)
  case Nil
  then show ?case by simp
next
  case (Cons a as)
  have "s_url ` set ss \<subseteq> s_url ` set (index_step L gfs yfs ss a)"
    by (auto simp: index_step_cases)
  also have "\<dots> \<subseteq> s_url ` set (foldl (index_step L gfs yfs) (index_step L gfs yfs ss a) as)"
    by (rule Cons.IH)
  finally show ?case by simp
qed

lemma foldl_index_step_complete:
  assumes "a \<in> set as" and "listed L a" and "passes gfs yfs (session_of L a)"
  shows "s_url (session_of L a) \<in> s_url ` set (foldl (index_step L gfs yfs) ss as)"
  using assms(1)
proof (induction as arbitrary: ss)
  case Nil
  then show ?case by simp
next
  case (Cons b as)
  show ?case
  proof (cases "a = b")
    case True
    have "s_url (session_of L a) \<in> s_url ` set (index_step L gfs yfs ss a)"
      using assms(2,3) by (auto simp: index_step_cases)
    with foldl_index_step_mono[of "index_step L gfs yfs ss a" L gfs yfs as] True
    show ?thesis by auto
  next
    case False
    with Cons show ?thesis by simp
  qed
qed

lemma foldl_index_step_distinct:
  assumes "distinct (map s_url ss)"
  shows "distinct (map s_url (foldl (index_step L gfs yfs) ss as))"
  using assms
proof (induction as arbitrary: ss)
  case Nil
  then show ?case by simp
next
  case (Cons a as)
  have "distinct (map s_url (index_step L gfs yfs ss a))"
    using Cons.prems by (auto simp: index_step_cases)
  with Cons show ?case by simp
qed

lemma cli_index_step_eq:
  "cli_index_step L gf yf ss a =
     index_step L (case gf of None \<Rightarrow> [] | Some g \<Rightarrow> if g = [] then [] else [g])
       (case yf of None \<Rightarrow> [] | Some y \<Rightarrow> if y = [] then [] else [y]) ss a"
  by (cases gf; cases yf) (auto simp: cli_index_step_def index_step_def Let_def)

lemma contains_self: "contains s s"
  by (cases s) simp_all

lemma scrape_index_sessions:
  "fst (scrape_index L gfs yfs w) = []
   \<or> (\<exists>page. fst (scrape_index L gfs yfs w) = foldl (index_step L gfs yfs) [] (find_links L page))"
  by (auto simp: scrape_index_def Let_def split: prod.splits option.splits)

text \<open>
  Claim C1, as the code has it. An empty grade list and an empty year list keep every
  link the loop does not skip for another reason. A non-empty year list keeps a session
  only if its year is a member. A non-empty grade list keeps a session only if some
  member occurs in its grade label as a substring; a label that is itself a member is
  kept. Every link that passes both tests has its address among the sessions returned.
  The script's single optional filters behave as lists of at most one member.
\<close>

theorem filter_identity_amended:
  "(\<forall>s\<in>set (fst (scrape_index L gfs yfs w)).
      (gfs = [] \<or> (\<exists>gf\<in>set gfs. contains (s_grade s) gf))
      \<and> (yfs = [] \<or> s_year s \<in> set yfs))
   \<and> (\<forall>a\<in>set links.
        listed L a
        \<and> (gfs = [] \<or> (\<exists>gf\<in>set gfs. contains (link_grade (snd a) (strip (fst a))) gf))
        \<and> (yfs = [] \<or> link_year (snd a) (strip (fst a)) \<in> set yfs)
        \<longrightarrow> urljoin L BASE_URL (strip (fst a))
             \<in> s_url ` set (foldl (index_step L gfs yfs) [] links))
   \<and> (\<forall>a\<in>set links.
        listed L a
        \<and> (gfs = [] \<or> link_grade (snd a) (strip (fst a)) \<in> set gfs)
        \<and> (yfs = [] \<or> link_year (snd a) (strip (fst a)) \<in> set yfs)
        \<longrightarrow> urljoin L BASE_URL (strip (fst a))
             \<in> s_url ` set (foldl (index_step L gfs yfs) [] links))
   \<and> (\<forall>a\<in>set links.
        listed L a
        \<longrightarrow> urljoin L BASE_URL (strip (fst a))
             \<in> s_url ` set (foldl (index_step L [] []) [] links))
   \<and> cli_index_step L gf yf ss b =
       index_step L (case gf of None \<Rightarrow> [] | Some g \<Rightarrow> if g = [] then [] else [g])
         (case yf of None \<Rightarrow> [] | Some y \<Rightarrow> if y = [] then [] else [y]) ss b"
proof (intro conjI ballI impI)
  fix s assume s: "s \<in> set (fst (scrape_index L gfs yfs w))"
  then obtain page where p: "s \<in> set (foldl (index_step L gfs yfs) [] (find_links L page))"
    using scrape_index_sessions[of L gfs yfs w] by auto
  have "\<forall>s\<in>set (foldl (index_step L gfs yfs) [] (find_links L page)).
          \<exists>a\<in>set (find_links L page). listed L a \<and> s = session_of L a \<and> passes gfs yfs s"
    by (rule foldl_index_step_sound) simp_all
  with p have ps: "passes gfs yfs s" by blast
  then show "gfs = [] \<or> (\<exists>gf\<in>set gfs. contains (s_grade s) gf)"
    by (simp add: passes_def)
  from ps show "yfs = [] \<or> s_year s \<in> set yfs"
    by (simp add: passes_def)
next
  fix a assume a: "a \<in> set links"
    and h: "listed L a
        \<and> (gfs = [] \<or> (\<exists>gf\<in>set gfs. contains (link_grade (snd a) (strip (fst a))) gf))
        \<and> (yfs = [] \<or> link_year (snd a) (strip (fst a)) \<in> set yfs)"
  then have "passes gfs yfs (session_of L a)" by (simp add: passes_def session_of_def)
  with a h have "s_url (session_of L a) \<in> s_url ` set (foldl (index_step L gfs yfs) [] links)"
    by (intro foldl_index_step_complete) simp_all
  then show "urljoin L BASE_URL (strip (fst a))
             \<in> s_url ` set (foldl (index_step L gfs yfs) [] links)"
    by (simp add: session_of_def)
next
  fix a assume a: "a \<in> set links"
    and h: "listed L a
        \<and> (gfs = [] \<or> link_grade (snd a) (strip (fst a)) \<in> set gfs)
        \<and> (yfs = [] \<or> link_year (snd a) (strip (fst a)) \<in> set yfs)"
  then have "passes gfs yfs (session_of L a)"
    using contains_self by (auto simp: passes_def session_of_def)
  with a h have "s_url (session_of L a) \<in> s_url ` set (foldl (index_step L gfs yfs) [] links)"
    by (intro foldl_index_step_complete) simp_all
  then show "urljoin L BASE_URL (strip (fst a))
             \<in> s_url ` set (foldl (index_step L gfs yfs) [] links)"
    by (simp add: session_of_def)
next
  fix a assume a: "a \<in> set links" and h: "listed L a"
  have "passes [] [] (session_of L a)" by (simp add: passes_def)
  with a h have "s_url (session_of L a) \<in> s_url ` set (foldl (index_step L [] []) [] links)"
    by (intro foldl_index_step_complete) simp_all
  then show "urljoin L BASE_URL (strip (fst a))
             \<in> s_url ` set (foldl (index_step L [] []) [] links)"
    by (simp add: session_of_def)
next
  show "cli_index_step L gf yf ss b =
       index_step L (case gf of None \<Rightarrow> [] | Some g \<Rightarrow> if g = [] then [] else [g])
         (case yf of None \<Rightarrow> [] | Some y \<Rightarrow> if y = [] then [] else [y]) ss b"
    by (rule cli_index_step_eq)
qed

theorem filter_identity_witness:
  "''https://www.ecexams.co.za/2023_nov_gr12.htm''
     \<in> s_url ` set (foldl (index_step demo [''Grade 12''] [''2023'']) []
                      (demo_links ''index page''))"
proof -
  define a where "a = (''2023_nov_gr12.htm'', ''Grade 12 November Examination 2023'')"
  have m: "a \<in> set (demo_links ''index page'')" unfolding a_def by code_simp
  have l: "listed demo a" unfolding a_def by code_simp
  have g: "link_grade (snd a) (strip (fst a)) = ''Grade 12''" unfolding a_def by code_simp
  have y: "link_year (snd a) (strip (fst a)) = ''2023''" unfolding a_def by code_simp
  have u: "urljoin demo BASE_URL (strip (fst a)) = ''https://www.ecexams.co.za/2023_nov_gr12.htm''"
    unfolding a_def by code_simp
  from filter_identity_amended
         [of demo "[''Grade 12'']" "[''2023'']" world0 "demo_links ''index page''"]
  have "\<forall>a\<in>set (demo_links ''index page'').
        listed demo a
        \<and> ([''Grade 12''] = [] \<or> link_grade (snd a) (strip (fst a)) \<in> set [''Grade 12''])
        \<and> ([''2023''] = [] \<or> link_year (snd a) (strip (fst a)) \<in> set [''2023''])
        \<longrightarrow> urljoin demo BASE_URL (strip (fst a))
             \<in> s_url ` set (foldl (index_step demo [''Grade 12''] [''2023'']) []
                              (demo_links ''index page''))"
    by blast
  with m l g y have "urljoin demo BASE_URL (strip (fst a))
             \<in> s_url ` set (foldl (index_step demo [''Grade 12''] [''2023'']) []
                              (demo_links ''index page''))"
    by simp
  then show ?thesis by (simp only: u)
qed

text \<open>
  The claim as stated fails for the grade filter: the filter "Grade 1" keeps a session
  whose grade label is "Grade 12", which is not a member of the filter list.
\<close>

theorem filter_substring_counterexample:
  "map s_grade (fst (scrape_index demo [''Grade 1''] [] world0)) = [''Grade 12'']
   \<and> ''Grade 12'' \<notin> set [''Grade 1'']"
  by code_simp

section \<open>The fetch loop\<close>

lemma requests_made_did_get [simp]: "requests_made (did (IoGet u) w) = Suc (requests_made w)"
  by (simp add: requests_made_def did_def)

lemma requests_made_emit [simp]: "requests_made (emit e w) = requests_made w"
  by (simp add: requests_made_def emit_def)

lemma get_loop_3:
  "get_loop L em u (Suc 0) MAX_RETRY w =
     (let n = requests_made w in
      case http_get L n u of
        Some b \<Rightarrow> (Some b, after_gets em u 0 1 w)
      | None \<Rightarrow>
         (case http_get L (n + 1) u of
            Some b \<Rightarrow> (Some b, after_gets em u 1 1 w)
          | None \<Rightarrow>
             (case http_get L (n + 2) u of
                Some b \<Rightarrow> (Some b, after_gets em u 2 1 w)
              | None \<Rightarrow> (None, after_gets em u 3 0 w))))"
  by (simp add: MAX_RETRY_def eval_nat_numeral Let_def after_gets_def did_def emit_def
      requests_made_def split: option.splits)

lemma after_gets_fields [simp]:
  "files (after_gets em u f k w) = files w"
  "dirs (after_gets em u f k w) = dirs w"
  "job_active (after_gets em u f k w) = job_active w"
  "io_trace (after_gets em u f k w) = io_trace w @ replicate (f + k) (IoGet u)"
  by (simp_all add: after_gets_def)

lemma get_loop_frame:
  assumes "get_loop L em u (Suc 0) MAX_RETRY w = (r, w')"
  shows "files w' = files w \<and> dirs w' = dirs w \<and> job_active w' = job_active w
         \<and> (\<exists>n. 0 < n \<and> n \<le> 3 \<and> io_trace w' = io_trace w @ replicate n (IoGet u))"
proof -
  from assms obtain f k where "w' = after_gets em u f k w" "0 < f + k" "f + k \<le> 3"
    by (auto simp: get_loop_3 Let_def split: option.splits)
  then show ?thesis by auto
qed

lemma get_loop_None:
  assumes "get_loop L em u (Suc 0) MAX_RETRY w = (None, w')"
  shows "w' = after_gets em u 3 0 w"
  using assms by (auto simp: get_loop_3 Let_def split: option.splits)

lemma get_loop_unreachable:
  assumes "http_get L (requests_made w) u = None"
    and "http_get L (requests_made w + 1) u = None"
    and "http_get L (requests_made w + 2) u = None"
  shows "get_loop L em u (Suc 0) MAX_RETRY w = (None, after_gets em u 3 0 w)"
  using assms by (simp add: get_loop_3 Let_def)

lemma emit_fields [simp]:
  "files (emit e w) = files w" "dirs (emit e w) = dirs w"
  "io_trace (emit e w) = io_trace w" "job_active (emit e w) = job_active w"
  "events (emit e w) = events w @ [e]"
  by (simp_all add: emit_def)

lemma did_fields [simp]:
  "files (did a w) = files w" "dirs (did a w) = dirs w"
  "io_trace (did a w) = io_trace w @ [a]" "job_active (did a w) = job_active w"
  "events (did a w) = events w"
  by (simp_all add: did_def)

section \<open>Path resolution and directories\<close>

text \<open>
  Resolution only looks at the directories on its way; it goes the same way in a world
  that has more of them.
\<close>

lemma is_dir_mono: "dirs w \<subseteq> dirs w' \<Longrightarrow> is_dir w p \<Longrightarrow> is_dir w' p"
  by (auto simp: is_dir_def)

lemma walk_mono:
  "walk w cur p = Inr q \<Longrightarrow> dirs w \<subseteq> dirs w' \<Longrightarrow> walk w' cur p = Inr q"
proof (induction p arbitrary: cur)
  case Nil
  then show ?case by simp
next
  case (Cons c cs)
  from Cons.prems(1) have d: "is_dir w cur" by (auto split: if_splits)
  with Cons.prems(2) have d': "is_dir w' cur" by (auto simp: is_dir_def)
  from Cons.prems(1) d have "walk w (if c = ''..'' then butlast cur else cur @ [c]) cs = Inr q"
    by simp
  from Cons.IH[OF this Cons.prems(2)] d' show ?case by simp
qed

lemma walk_same:
  "dirs w' = dirs w \<Longrightarrow> files w' = files w \<Longrightarrow> walk w' cur p = walk w cur p"
  by (induction p arbitrary: cur) (simp_all add: is_dir_def is_file_def)

lemma same_fs:
  assumes "dirs w' = dirs w" and "files w' = files w"
  shows "resolve w' p = resolve w p" and "path_exists w' p = path_exists w p"
    and "path_is_dir w' p = path_is_dir w p"
  using assms walk_same[OF assms]
  by (simp_all add: resolve_def path_exists_def path_is_dir_def is_dir_def is_file_def
      split: sum.splits)

lemma path_exists_emit [simp]: "path_exists (emit e w) p = path_exists w p"
  by (rule same_fs) simp_all

lemma path_exists_did [simp]: "path_exists (did a w) p = path_exists w p"
  by (rule same_fs) simp_all

lemma path_is_dir_did [simp]: "path_is_dir (did a w) p = path_is_dir w p"
  by (rule same_fs) simp_all

lemma path_exists_mono:
  assumes "path_exists w p" and "dirs w \<subseteq> dirs w'" and "\<forall>q. is_file w q \<longrightarrow> is_file w' q"
  shows "path_exists w' p"
proof -
  from assms(1) obtain q where q: "resolve w p = Inr q" "is_file w q \<or> is_dir w q"
    by (auto simp: path_exists_def split: sum.splits)
  from q(1) assms(2) have "resolve w' p = Inr q" unfolding resolve_def by (rule walk_mono)
  moreover from q(2) assms(2,3) have "is_file w' q \<or> is_dir w' q"
    by (auto intro: is_dir_mono)
  ultimately show ?thesis by (simp add: path_exists_def)
qed

lemma os_mkdir_Inr:
  assumes "os_mkdir p w = Inr w1"
  shows "\<exists>q. resolve w p = Inr q \<and> \<not> is_dir w q \<and> w1 = w\<lparr>dirs := insert q (dirs w)\<rparr>"
  using assms by (auto simp: os_mkdir_def split: sum.splits if_splits)

lemma os_mkdir_made:
  assumes "os_mkdir p w = Inr w1"
  shows "path_is_dir w1 p" and "dirs w1 \<noteq> dirs w" and "dirs w \<subseteq> dirs w1"
    and "files w1 = files w" and "io_trace w1 = io_trace w" and "events w1 = events w"
    and "job_active w1 = job_active w"
proof -
  from os_mkdir_Inr[OF assms] obtain q where
    q: "resolve w p = Inr q" "\<not> is_dir w q" "w1 = w\<lparr>dirs := insert q (dirs w)\<rparr>"
    by blast
  from q(3) show sub: "dirs w \<subseteq> dirs w1" by auto
  from q(1) sub have "resolve w1 p = Inr q" unfolding resolve_def by (rule walk_mono)
  with q(3) show "path_is_dir w1 p" by (simp add: path_is_dir_def is_dir_def)
  from q(2,3) show "dirs w1 \<noteq> dirs w" by (auto simp: is_dir_def)
  from q(3) show "files w1 = files w" "io_trace w1 = io_trace w" "events w1 = events w"
    "job_active w1 = job_active w" by simp_all
qed

lemma os_mkdir_exists:
  assumes "path_is_dir w p"
  shows "os_mkdir p w = Inl EEXIST"
  using assms by (auto simp: os_mkdir_def path_is_dir_def split: sum.splits)

declare mkdir_parents.simps [simp del]

lemma mkdir_parents_present:
  "path_is_dir w d \<Longrightarrow> mkdir_parents d w = (None, w)"
  by (subst mkdir_parents.simps) (simp add: os_mkdir_exists)

text \<open>What \<open>mkdir\<close> leaves alone, what it only adds to, and what holds when it succeeds.\<close>

lemma mkdir_parents_frame:
  "files (snd (mkdir_parents d w)) = files w
   \<and> io_trace (snd (mkdir_parents d w)) = io_trace w
   \<and> events (snd (mkdir_parents d w)) = events w
   \<and> job_active (snd (mkdir_parents d w)) = job_active w
   \<and> dirs w \<subseteq> dirs (snd (mkdir_parents d w))
   \<and> (fst (mkdir_parents d w) = None \<longrightarrow> path_is_dir (snd (mkdir_parents d w)) d)"
proof (induction d w rule: mkdir_parents.induct)
  case (1 d w)
  show ?case
  proof (cases "os_mkdir d w")
    case (Inr w1)
    then have "mkdir_parents d w = (None, w1)" by (subst mkdir_parents.simps) simp
    with os_mkdir_made[OF Inr] show ?thesis by simp
  next
    case (Inl e)
    show ?thesis
    proof (cases "e = ENOENT")
      case False
      with Inl have "mkdir_parents d w = (if path_is_dir w d then (None, w) else (Some OSError, w))"
        by (subst mkdir_parents.simps) simp
      then show ?thesis by simp
    next
      case True
      show ?thesis
      proof (cases "d = []")
        case True
        with Inl \<open>e = ENOENT\<close> have "mkdir_parents d w = (Some OSError, w)"
          by (subst mkdir_parents.simps) simp
        then show ?thesis by simp
      next
        case False
        obtain x w1 where p: "mkdir_parents (butlast d) w = (x, w1)"
          by (cases "mkdir_parents (butlast d) w")
        from "1.IH"[OF Inl True False] p have ih:
          "files w1 = files w" "io_trace w1 = io_trace w" "events w1 = events w"
          "job_active w1 = job_active w" "dirs w \<subseteq> dirs w1"
          by simp_all
        show ?thesis
        proof (cases x)
          case (Some err)
          with Inl True False p have "mkdir_parents d w = (Some err, w1)"
            by (subst mkdir_parents.simps) simp
          with ih show ?thesis by simp
        next
          case None
          show ?thesis
          proof (cases "os_mkdir d w1")
            case w2: (Inr w2)
            with Inl True False p None have "mkdir_parents d w = (None, w2)"
              by (subst mkdir_parents.simps) simp
            with os_mkdir_made[OF w2] ih show ?thesis by auto
          next
            case e2: (Inl e2)
            with Inl True False p None have "mkdir_parents d w =
                (if e2 \<noteq> ENOENT \<and> path_is_dir w1 d then (None, w1) else (Some OSError, w1))"
              by (subst mkdir_parents.simps) simp
            with ih show ?thesis by simp
          qed
        qed
      qed
    qed
  qed
qed

lemma mkdir_parents_changes:
  assumes "fst (mkdir_parents d w) = None"
  shows "(dirs (snd (mkdir_parents d w)) = dirs w) = path_is_dir w d"
proof (cases "path_is_dir w d")
  case True
  then show ?thesis by (simp add: mkdir_parents_present)
next
  case False
  from mkdir_parents_frame[of d w] assms
  have f: "files (snd (mkdir_parents d w)) = files w"
    and p: "path_is_dir (snd (mkdir_parents d w)) d" by simp_all
  have "dirs (snd (mkdir_parents d w)) \<noteq> dirs w"
  proof
    assume "dirs (snd (mkdir_parents d w)) = dirs w"
    from same_fs(3)[OF this f] p False show False by simp
  qed
  with False show ?thesis by simp
qed

section \<open>What one download does\<close>

lemma path_is_dir_emit [simp]: "path_is_dir (emit e w) p = path_is_dir w p"
  by (rule same_fs) simp_all

lemma download_file_dry:
  "download_file L fi root True w = (Inr Dryrun, emit (Ev_dryrun (dest_path root fi)) w)"
  by (simp add: download_file_def)

lemma download_file_skip:
  "path_exists w (dest_path root fi) \<Longrightarrow> download_file L fi root False w = (Inr Skipped, w)"
  by (simp add: download_file_def)

lemma write_bytes_Inr:
  assumes "write_bytes p content w = Inr w'"
  shows "\<exists>q. resolve w p = Inr q
           \<and> w' = did (IoWrite p) (w\<lparr>files := (files w)(q \<mapsto> content)\<rparr>)"
  using assms by (auto simp: write_bytes_def split: sum.splits if_splits)

lemma download_file_fetch:
  assumes ne: "\<not> path_exists w (dest_path root fi)"
    and run: "download_file L fi root False w = (Inr r, w')"
  shows "fetched fi root r w w'"
proof -
  define dd where "dd = dest_dir root fi"
  define w0 where "w0 = did (IoMkdir dd) w"
  obtain x w1 where mk: "mkdir_parents dd w0 = (x, w1)" by (cases "mkdir_parents dd w0")
  with ne run have x: "x = None"
    by (cases x) (simp_all add: download_file_def dd_def w0_def)
  from mkdir_parents_frame[of dd w0] mk x have w1:
    "files w1 = files w" "io_trace w1 = io_trace w @ [IoMkdir dd]" "job_active w1 = job_active w"
    "dirs w \<subseteq> dirs w1" "path_is_dir w1 dd"
    by (simp_all add: w0_def)
  from mkdir_parents_changes[of dd w0] mk x
  have ch: "(dirs w1 = dirs w) = path_is_dir w dd" by (simp add: w0_def)
  obtain c w2 where g: "get_loop L True (f_url fi) (Suc 0) MAX_RETRY w1 = (c, w2)"
    by (cases "get_loop L True (f_url fi) (Suc 0) MAX_RETRY w1")
  from get_loop_frame[OF g] obtain n where w2:
    "files w2 = files w1" "dirs w2 = dirs w1" "job_active w2 = job_active w1"
    "0 < n" "n \<le> 3" "io_trace w2 = io_trace w1 @ replicate n (IoGet (f_url fi))"
    by blast
  from same_fs(3)[OF w2(2) w2(1)] w1(5) have d2: "path_is_dir w2 dd" by simp
  show ?thesis
  proof (cases c)
    case None
    with ne run mk x g have r: "r = Failed" "w' = emit (Ev_error_failed (f_url fi)) w2"
      by (simp_all add: download_file_def dd_def w0_def get_def)
    from g None have "w2 = after_gets True (f_url fi) 3 0 w1" by (simp add: get_loop_None)
    with r w1 ch d2 w2 show ?thesis
      by (simp add: fetched_def dd_def)
  next
    case (Some content)
    obtain y where wb: "write_bytes (dest_path root fi) content w2 = y" by simp
    with ne run mk x g Some obtain w3 where y: "y = Inr w3"
      by (cases y) (simp_all add: download_file_def dd_def w0_def get_def)
    with ne run mk x g Some wb have r: "r = Downloaded" "w' = emit (Ev_download (f_filename fi)) w3"
      by (simp_all add: download_file_def dd_def w0_def get_def)
    from write_bytes_Inr wb y obtain q where q: "resolve w2 (dest_path root fi) = Inr q"
      "w3 = did (IoWrite (dest_path root fi)) (w2\<lparr>files := (files w2)(q \<mapsto> content)\<rparr>)"
      by blast
    have "dirs w2 \<subseteq> dirs w'" using r q by simp
    with q(1) have rq: "resolve w' (dest_path root fi) = Inr q"
      unfolding resolve_def by (rule walk_mono)
    from d2 have "\<exists>p. resolve w2 dd = Inr p \<and> is_dir w2 p"
      by (auto simp: path_is_dir_def split: sum.splits)
    then obtain p where p: "resolve w2 dd = Inr p" "is_dir w2 p" by blast
    from p(1) \<open>dirs w2 \<subseteq> dirs w'\<close> have "resolve w' dd = Inr p"
      unfolding resolve_def by (rule walk_mono)
    with p(2) r q have d': "path_is_dir w' dd" by (simp add: path_is_dir_def is_dir_def)
    have tr: "io_trace w' = io_trace w @ [IoMkdir dd] @ replicate n (IoGet (f_url fi))
                @ [IoWrite (dest_path root fi)]"
      using r q w2 w1 by simp
    have fl: "files w' = (files w)(q \<mapsto> content)" using r q w2 w1 by simp
    have "\<exists>n q content. 0 < n \<and> n \<le> 3
            \<and> io_trace w' = io_trace w @ [IoMkdir dd]
                 @ replicate n (IoGet (f_url fi)) @ [IoWrite (dest_path root fi)]
            \<and> resolve w' (dest_path root fi) = Inr q
            \<and> files w' = (files w)(q \<mapsto> content)"
      using tr fl rq w2(4,5) by blast
    moreover have "dirs w' = dirs w1" "job_active w' = job_active w" using r q w2 w1 by simp_all
    ultimately show ?thesis using r(1) w1(4) ch d'
      by (simp add: fetched_def dd_def)
  qed
qed

lemma fetched_exists:
  assumes "fetched fi root Downloaded w w'"
  shows "path_exists w' (dest_path root fi)"
  using assms by (auto simp: fetched_def path_exists_def is_file_def)

lemma fetched_keeps:
  assumes f: "fetched fi root r w w'" and p: "path_exists w p"
  shows "path_exists w' p"
proof (rule path_exists_mono[OF p])
  from f show "dirs w \<subseteq> dirs w'" by (simp add: fetched_def)
  from f show "\<forall>q. is_file w q \<longrightarrow> is_file w' q"
    by (cases "r = Failed") (auto simp: fetched_def is_file_def split: if_splits)
qed

text \<open>The pipeline never removes a file or a directory.\<close>

lemma download_file_keeps:
  assumes "download_file L fi root dry_run w = (Inr r, w')" and "path_exists w p"
  shows "path_exists w' p"
proof (cases "dry_run \<or> path_exists w (dest_path root fi)")
  case True
  with assms show ?thesis
    by (cases dry_run) (auto simp: download_file_dry download_file_skip)
next
  case False
  with assms(1) have "fetched fi root r w w'"
    by (intro download_file_fetch[where L = L]) simp_all
  then show ?thesis using assms(2) by (rule fetched_keeps)
qed

lemma download_file_present:
  assumes "download_file L fi root False w = (Inr r, w')" and "r \<noteq> Failed"
  shows "path_exists w' (dest_path root fi)"
proof (cases "path_exists w (dest_path root fi)")
  case True
  with assms show ?thesis by (simp add: download_file_skip)
next
  case False
  with assms(1) have "fetched fi root r w w'"
    by (intro download_file_fetch[where L = L]) simp_all
  with assms(2) have "fetched fi root Downloaded w w'" by (auto simp: fetched_def)
  then show ?thesis by (rule fetched_exists)
qed

section \<open>The download stage\<close>

lemma total_bump: "total (bump r c) = Suc (total c)"
  by (cases r) (simp_all add: total_def)

lemma failed_bump: "failed (bump r c) = (if r = Failed then Suc (failed c) else failed c)"
  by (cases r) simp_all

lemma download_stage_failed_mono:
  "download_stage L fis root dry_run c d t w = (Inr c', w') \<Longrightarrow> failed c \<le> failed c'"
proof (induction fis arbitrary: c d w)
  case Nil
  then show ?case by simp
next
  case (Cons fi fis)
  obtain r0 w1 where df: "download_file L fi root dry_run w = (r0, w1)"
    by (cases "download_file L fi root dry_run w")
  with Cons.prems obtain r where r: "r0 = Inr r" by (cases r0) simp_all
  with Cons.prems df have
    "download_stage L fis root dry_run (bump r c) (Suc d) t (emit (Ev_progress_done (Suc d) t) w1)
       = (Inr c', w')"
    by simp
  from Cons.IH[OF this] show ?case by (simp add: failed_bump split: if_splits)
qed

lemma download_stage_keeps:
  "download_stage L fis root dry_run c d t w = (Inr c', w') \<Longrightarrow> path_exists w p
   \<Longrightarrow> path_exists w' p"
proof (induction fis arbitrary: c d w)
  case Nil
  then show ?case by simp
next
  case (Cons fi fis)
  obtain r0 w1 where df: "download_file L fi root dry_run w = (r0, w1)"
    by (cases "download_file L fi root dry_run w")
  with Cons.prems obtain r where r: "r0 = Inr r" by (cases r0) simp_all
  with Cons.prems df have st:
    "download_stage L fis root dry_run (bump r c) (Suc d) t (emit (Ev_progress_done (Suc d) t) w1)
       = (Inr c', w')"
    by simp
  from df r Cons.prems(2) have "path_exists w1 p" by (auto dest: download_file_keeps)
  then have "path_exists (emit (Ev_progress_done (Suc d) t) w1) p"
    by simp
  from Cons.IH[OF st this] show ?case .
qed

lemma download_stage_all_present:
  "download_stage L fis root False c d t w = (Inr c', w') \<Longrightarrow> failed c' = failed c
   \<Longrightarrow> \<forall>fi\<in>set fis. path_exists w' (dest_path root fi)"
proof (induction fis arbitrary: c d w)
  case Nil
  then show ?case by simp
next
  case (Cons fi fis)
  obtain r0 w1 where df: "download_file L fi root False w = (r0, w1)"
    by (cases "download_file L fi root False w")
  with Cons.prems obtain r where r: "r0 = Inr r" by (cases r0) simp_all
  with Cons.prems df have st:
    "download_stage L fis root False (bump r c) (Suc d) t (emit (Ev_progress_done (Suc d) t) w1)
       = (Inr c', w')"
    by simp
  from download_stage_failed_mono[OF st] Cons.prems(2)
  have nf: "r \<noteq> Failed" by (auto simp: failed_bump)
  then have fb: "failed c' = failed (bump r c)" using Cons.prems(2) by (simp add: failed_bump)
  from df r nf have "path_exists w1 (dest_path root fi)" by (auto dest: download_file_present)
  then have "path_exists (emit (Ev_progress_done (Suc d) t) w1) (dest_path root fi)"
    by simp
  from download_stage_keeps[OF st this] Cons.IH[OF st fb] show ?case by simp
qed

lemma download_stage_all_skipped:
  "\<forall>fi\<in>set fis. path_exists w (dest_path root fi) \<Longrightarrow>
   \<exists>w'. download_stage L fis root False c d t w = (Inr (c\<lparr>skipped := skipped c + length fis\<rparr>), w')
        \<and> io_trace w' = io_trace w \<and> files w' = files w \<and> dirs w' = dirs w"
proof (induction fis arbitrary: c d w)
  case Nil
  then show ?case by simp
next
  case (Cons fi fis)
  define w1 where "w1 = emit (Ev_progress_done (Suc d) t) w"
  have f: "files w1 = files w" "dirs w1 = dirs w" "io_trace w1 = io_trace w"
    by (simp_all add: w1_def)
  from Cons.prems have "\<forall>fi\<in>set fis. path_exists w1 (dest_path root fi)"
    by (simp add: w1_def)
  from Cons.IH[OF this, of "bump Skipped c" "Suc d"] obtain w' where
    w': "download_stage L fis root False (bump Skipped c) (Suc d) t w1
           = (Inr ((bump Skipped c)\<lparr>skipped := skipped (bump Skipped c) + length fis\<rparr>), w')"
        "io_trace w' = io_trace w1" "files w' = files w1" "dirs w' = dirs w1"
    by blast
  from Cons.prems have "download_file L fi root False w = (Inr Skipped, w)"
    by (simp add: download_file_skip)
  with w' f show ?case by (simp add: w1_def)
qed

section \<open>The script and the web job\<close>

text \<open>
  The file system calls do not look at the event queue, at the trace or at the flag:
  they commute with every change of the world that keeps files and directories.
\<close>

lemma os_mkdir_lift:
  assumes "\<And>v. files (g v) = files v" and "\<And>v. dirs (g v) = dirs v"
    and "\<And>v X. g (v\<lparr>dirs := X\<rparr>) = (g v)\<lparr>dirs := X\<rparr>"
  shows "os_mkdir d (g w) = map_sum (\<lambda>e. e) g (os_mkdir d w)"
  using assms same_fs(1)[of "g w" w d]
  by (simp add: os_mkdir_def is_file_def is_dir_def split: sum.splits)

lemma mkdir_parents_lift:
  assumes f: "\<And>v. files (g v) = files v" and d: "\<And>v. dirs (g v) = dirs v"
    and u: "\<And>v X. g (v\<lparr>dirs := X\<rparr>) = (g v)\<lparr>dirs := X\<rparr>"
  shows "mkdir_parents p (g w) = (fst (mkdir_parents p w), g (snd (mkdir_parents p w)))"
proof (induction p w rule: mkdir_parents.induct)
  case (1 p w)
  have pd: "\<And>v q. path_is_dir (g v) q = path_is_dir v q"
    by (rule same_fs) (simp_all add: f d)
  note om = os_mkdir_lift[of g, OF f d u]
  show ?case
  proof (cases "os_mkdir p w")
    case (Inr w1)
    then show ?thesis
      by (simp add: mkdir_parents.simps[of p w] mkdir_parents.simps[of p "g w"] om)
  next
    case (Inl e)
    show ?thesis
    proof (cases "e = ENOENT \<and> p \<noteq> []")
      case False
      with Inl show ?thesis
        by (auto simp: mkdir_parents.simps[of p w] mkdir_parents.simps[of p "g w"] om pd)
    next
      case True
      with "1.IH"[OF Inl] have ih: "mkdir_parents (butlast p) (g w)
          = (fst (mkdir_parents (butlast p) w), g (snd (mkdir_parents (butlast p) w)))"
        by simp
      obtain x w1 where b: "mkdir_parents (butlast p) w = (x, w1)"
        by (cases "mkdir_parents (butlast p) w")
      with ih have b': "mkdir_parents (butlast p) (g w) = (x, g w1)" by simp
      from Inl True b b' show ?thesis
        by (simp add: mkdir_parents.simps[of p w] mkdir_parents.simps[of p "g w"] om pd
            split: option.splits sum.splits)
    qed
  qed
qed

lemma write_bytes_lift:
  assumes "\<And>v. files (g v) = files v" and "\<And>v. dirs (g v) = dirs v"
    and "\<And>v X. g (v\<lparr>files := X\<rparr>) = (g v)\<lparr>files := X\<rparr>"
    and "\<And>v a. g (did a v) = did a (g v)"
  shows "write_bytes p content (g w) = map_sum (\<lambda>e. e) g (write_bytes p content w)"
  using assms same_fs(1)[of "g w" w p]
  by (simp add: write_bytes_def is_dir_def split: sum.splits)

text \<open>
  The script's download is that of the web job without the events: started from a
  world with any event queue \<open>e\<close>, it returns what the web job's returns, and the world
  the web job's ends in, with the queue still \<open>e\<close>.
\<close>

lemma get_loop_silent:
  "get_loop L False u (Suc 0) MAX_RETRY (w\<lparr>events := e\<rparr>)
     = (fst (get_loop L True u (Suc 0) MAX_RETRY w),
        (snd (get_loop L True u (Suc 0) MAX_RETRY w))\<lparr>events := e\<rparr>)"
  by (simp add: get_loop_3 Let_def requests_made_def after_gets_def split: option.splits)

lemma cli_download_file_web:
  "cli_download_file L fi root dry_run (w\<lparr>events := e\<rparr>)
     = (fst (download_file L fi root dry_run w),
        (snd (download_file L fi root dry_run w))\<lparr>events := e\<rparr>)"
proof -
  define g where "g = (\<lambda>v::world. v\<lparr>events := e\<rparr>)"
  have g: "\<And>v. files (g v) = files v" "\<And>v. dirs (g v) = dirs v"
    "\<And>v X. g (v\<lparr>dirs := X\<rparr>) = (g v)\<lparr>dirs := X\<rparr>"
    "\<And>v X. g (v\<lparr>files := X\<rparr>) = (g v)\<lparr>files := X\<rparr>"
    "\<And>v a. g (did a v) = did a (g v)"
    "\<And>v x. g (emit x v) = g v"
    by (simp_all add: g_def did_def emit_def)
  have pe: "\<And>v q. path_exists (g v) q = path_exists v q"
    by (rule same_fs) (simp_all add: g)
  note mk = mkdir_parents_lift[of g, OF g(1) g(2) g(3)]
  note wb = write_bytes_lift[of g, OF g(1) g(2) g(4) g(5)]
  have gl: "\<And>v u. get_loop L False u (Suc 0) MAX_RETRY (g v)
     = (fst (get_loop L True u (Suc 0) MAX_RETRY v), g (snd (get_loop L True u (Suc 0) MAX_RETRY v)))"
    by (simp add: g_def get_loop_silent)
  have "cli_download_file L fi root dry_run (g w)
     = (fst (download_file L fi root dry_run w), g (snd (download_file L fi root dry_run w)))"
  proof (cases "dry_run \<or> path_exists w (dest_path root fi)")
    case True
    then show ?thesis
      by (auto simp: cli_download_file_def download_file_def Let_def pe g(6))
  next
    case False
    define w0 where "w0 = did (IoMkdir (dest_dir root fi)) w"
    obtain x w1 where m: "mkdir_parents (dest_dir root fi) w0 = (x, w1)"
      by (cases "mkdir_parents (dest_dir root fi) w0")
    then have m': "mkdir_parents (dest_dir root fi) (did (IoMkdir (dest_dir root fi)) (g w))
        = (x, g w1)"
      by (simp add: g(5)[symmetric] mk w0_def)
    show ?thesis
    proof (cases x)
      case (Some err)
      with False m m' show ?thesis
        by (simp add: cli_download_file_def download_file_def Let_def pe w0_def)
    next
      case None
      obtain c w2 where gt: "get_loop L True (f_url fi) (Suc 0) MAX_RETRY w1 = (c, w2)"
        by (cases "get_loop L True (f_url fi) (Suc 0) MAX_RETRY w1")
      then have gt': "get_loop L False (f_url fi) (Suc 0) MAX_RETRY (g w1) = (c, g w2)"
        by (simp add: gl)
      show ?thesis
      proof (cases c)
        case cn: None
        with False m m' None gt gt' show ?thesis
          by (simp add: cli_download_file_def download_file_def Let_def pe w0_def get_def
              safe_get_def g(6))
      next
        case (Some content)
        show ?thesis
        proof (cases "write_bytes (dest_path root fi) content w2")
          case (Inl err)
          then have "write_bytes (dest_path root fi) content (g w2) = Inl err"
            by (simp add: wb)
          with Inl False m m' None gt gt' Some show ?thesis
            by (simp add: cli_download_file_def download_file_def Let_def pe w0_def get_def
                safe_get_def)
        next
          case (Inr w3)
          then have "write_bytes (dest_path root fi) content (g w2) = Inr (g w3)"
            by (simp add: wb)
          with Inr False m m' None gt gt' Some show ?thesis
            by (simp add: cli_download_file_def download_file_def Let_def pe w0_def get_def
                safe_get_def g(6))
        qed
      qed
    qed
  qed
  then show ?thesis by (simp add: g_def)
qed

lemma cli_tally:
  "(if r = Downloaded then c\<lparr>downloaded := downloaded c + 1\<rparr>
    else if r = Failed then c\<lparr>failed := failed c + 1\<rparr>
    else if r = Dryrun then c\<lparr>dryrun := dryrun c + 1\<rparr>
    else c\<lparr>skipped := skipped c + 1\<rparr>) = bump r c"
  by (cases r) simp_all

lemma cli_drain_web:
  "cli_drain L fis root dry_run (w\<lparr>events := e\<rparr>) = (drain L fis root dry_run w)\<lparr>events := e\<rparr>"
  by (induction fis arbitrary: w) (simp_all add: cli_download_file_web)

lemma cli_download_stage_web:
  "cli_download_stage L fis root dry_run c (w\<lparr>events := e\<rparr>)
     = (fst (download_stage L fis root dry_run c d t w),
        (snd (download_stage L fis root dry_run c d t w))\<lparr>events := e\<rparr>)"
proof (induction fis arbitrary: c d w)
  case Nil
  then show ?case by simp
next
  case (Cons fi fis)
  obtain r0 w1 where df: "download_file L fi root dry_run w = (r0, w1)"
    by (cases "download_file L fi root dry_run w")
  then have cf: "cli_download_file L fi root dry_run (w\<lparr>events := e\<rparr>) = (r0, w1\<lparr>events := e\<rparr>)"
    by (simp add: cli_download_file_web)
  show ?case
  proof (cases r0)
    case (Inl x)
    with df cf show ?thesis by (simp add: cli_drain_web)
  next
    case (Inr r)
    have "w1\<lparr>events := e\<rparr> = (emit (Ev_progress_done (Suc d) t) w1)\<lparr>events := e\<rparr>"
      by (simp add: emit_def)
    with Cons.IH[of "bump r c" "emit (Ev_progress_done (Suc d) t) w1" "Suc d"] Inr df cf
    show ?thesis by (simp add: cli_tally del: bump.simps)
  qed
qed

lemma cli_download_file_eq:
  "cli_download_file L fi root dry_run w
     = (fst (download_file L fi root dry_run w),
        (snd (download_file L fi root dry_run w))\<lparr>events := events w\<rparr>)"
  using cli_download_file_web[where w = w and e = "events w"] by simp

lemma cli_download_stage_eq:
  "cli_download_stage L fis root dry_run c w
     = (fst (download_stage L fis root dry_run c d t w),
        (snd (download_stage L fis root dry_run c d t w))\<lparr>events := events w\<rparr>)"
  using cli_download_stage_web[where w = w and e = "events w"] by simp

section \<open>Existing files and failed downloads\<close>

lemma cli_download_file_skip:
  "path_exists w (dest_path root fi) \<Longrightarrow> cli_download_file L fi root False w = (Inr Skipped, w)"
  by (simp add: cli_download_file_def)

lemma cli_download_stage_all_skipped:
  "\<forall>fi\<in>set fis. path_exists w (dest_path root fi) \<Longrightarrow>
   cli_download_stage L fis root False c w = (Inr (c\<lparr>skipped := skipped c + length fis\<rparr>), w)"
  by (induction fis arbitrary: c) (simp_all add: cli_download_file_skip)

lemma cli_download_stage_all_present:
  assumes "cli_download_stage L fis root False c w = (Inr c', w')" and "failed c' = failed c"
  shows "\<forall>fi\<in>set fis. path_exists w' (dest_path root fi)"
proof -
  define v where "v = snd (download_stage L fis root False c 0 0 w)"
  from assms(1) cli_download_stage_eq[of L fis root False c w 0 0]
  have "download_stage L fis root False c 0 0 w = (Inr c', v)" and w': "w' = v\<lparr>events := events w\<rparr>"
    by (simp_all add: v_def prod_eq_iff)
  from download_stage_all_present[OF this(1) assms(2)]
  have "\<forall>fi\<in>set fis. path_exists v (dest_path root fi)" .
  moreover have "\<And>p. path_exists w' p = path_exists v p"
    by (rule same_fs) (simp_all add: w')
  ultimately show ?thesis by simp
qed

lemma fetched_events:
  assumes "fetched fi root r w w'"
  shows "fetched fi root r w (w'\<lparr>events := e\<rparr>)"
proof -
  have "\<And>p. resolve (w'\<lparr>events := e\<rparr>) p = resolve w' p"
    "\<And>p. path_is_dir (w'\<lparr>events := e\<rparr>) p = path_is_dir w' p"
    by (rule same_fs; simp)+
  with assms show ?thesis by (auto simp: fetched_def)
qed

lemma cli_download_file_fetch:
  assumes ne: "\<not> path_exists w (dest_path root fi)"
    and run: "cli_download_file L fi root False w = (Inr r, w')"
  shows "fetched fi root r w w'"
proof -
  define v where "v = snd (download_file L fi root False w)"
  from run cli_download_file_eq[of L fi root False w]
  have "download_file L fi root False w = (Inr r, v)" and w': "w' = v\<lparr>events := events w\<rparr>"
    by (simp_all add: v_def prod_eq_iff)
  from download_file_fetch[OF ne this(1)] show ?thesis unfolding w' by (rule fetched_events)
qed

lemma fetched_trace:
  assumes "fetched fi root r w w'"
  shows "\<exists>n rest. 0 < n
           \<and> io_trace w' = io_trace w @ [IoMkdir (dest_dir root fi)]
                @ replicate n (IoGet (f_url fi)) @ rest
           \<and> (rest = [] \<or> rest = [IoWrite (dest_path root fi)])"
proof (cases "r = Failed")
  case True
  with assms have "0 < (3::nat) \<and> io_trace w' = io_trace w @ [IoMkdir (dest_dir root fi)]
                     @ replicate 3 (IoGet (f_url fi)) @ []
                \<and> ([] = [] \<or> [] = [IoWrite (dest_path root fi)])"
    by (simp add: fetched_def)
  then show ?thesis by blast
next
  case False
  with assms obtain n where "0 < n"
    "io_trace w' = io_trace w @ [IoMkdir (dest_dir root fi)]
        @ replicate n (IoGet (f_url fi)) @ [IoWrite (dest_path root fi)]"
    by (auto simp: fetched_def)
  then show ?thesis by blast
qed

lemma fetched_failed:
  assumes "fetched fi root Failed w w'"
  shows "files w' = files w"
    and "io_trace w' = io_trace w @ [IoMkdir (dest_dir root fi)] @ replicate 3 (IoGet (f_url fi))"
    and "(dirs w' = dirs w) = path_is_dir w (dest_dir root fi)"
  using assms by (simp_all add: fetched_def)

lemma fetched_dirs:
  assumes "fetched fi root r w w'"
  shows "dirs w \<subseteq> dirs w'" and "path_is_dir w' (dest_dir root fi)"
  using assms by (simp_all add: fetched_def)

text \<open>
  Claim C3. When the run is not a dry run and the destination of a file exists,
  \<open>download_file\<close> returns \<open>skipped\<close> and leaves the world as it was: no request is
  made. When every destination exists, the download stage counts every file as
  skipped and makes no request and no change to the file system. After a stage that
  ended with no failure added, every destination exists, so a second stage over the same
  list and root, whatever the network does then, counts every file as skipped. All of
  this holds for the web job (the first three parts) and for the command-line script
  (the last three).
\<close>

theorem skip_if_exists:
  "(path_exists w (dest_path root fi)
      \<longrightarrow> download_file L fi root False w = (Inr Skipped, w))
   \<and> ((\<forall>fi\<in>set fis. path_exists w (dest_path root fi))
      \<longrightarrow> (\<exists>w'. download_stage L fis root False c d t w
                   = (Inr (c\<lparr>skipped := skipped c + length fis\<rparr>), w')
                 \<and> io_trace w' = io_trace w \<and> files w' = files w \<and> dirs w' = dirs w))
   \<and> (download_stage L fis root False c0 d0 t0 w0 = (Inr c1, w1) \<and> failed c1 = failed c0
      \<longrightarrow> (\<exists>w2. download_stage L2 fis root False zero_counts 0 (length fis) w1
                   = (Inr (zero_counts\<lparr>skipped := length fis\<rparr>), w2)
                 \<and> io_trace w2 = io_trace w1 \<and> files w2 = files w1 \<and> dirs w2 = dirs w1))
   \<and> (path_exists w (dest_path root fi)
      \<longrightarrow> cli_download_file L fi root False w = (Inr Skipped, w))
   \<and> ((\<forall>fi\<in>set fis. path_exists w (dest_path root fi))
      \<longrightarrow> cli_download_stage L fis root False c w
            = (Inr (c\<lparr>skipped := skipped c + length fis\<rparr>), w))
   \<and> (cli_download_stage L fis root False c0 w0 = (Inr c3, w3) \<and> failed c3 = failed c0
      \<longrightarrow> cli_download_stage L2 fis root False zero_counts w3
            = (Inr (zero_counts\<lparr>skipped := length fis\<rparr>), w3))"
proof (intro conjI impI)
  assume "path_exists w (dest_path root fi)"
  then show "download_file L fi root False w = (Inr Skipped, w)" by (rule download_file_skip)
next
  assume "\<forall>fi\<in>set fis. path_exists w (dest_path root fi)"
  then show "\<exists>w'. download_stage L fis root False c d t w
                   = (Inr (c\<lparr>skipped := skipped c + length fis\<rparr>), w')
                 \<and> io_trace w' = io_trace w \<and> files w' = files w \<and> dirs w' = dirs w"
    by (rule download_stage_all_skipped)
next
  assume a: "download_stage L fis root False c0 d0 t0 w0 = (Inr c1, w1) \<and> failed c1 = failed c0"
  then have "\<forall>fi\<in>set fis. path_exists w1 (dest_path root fi)"
    by (intro download_stage_all_present[of L fis root c0 d0 t0 w0 c1 w1]) simp_all
  from download_stage_all_skipped[OF this, of L2 zero_counts 0 "length fis"]
  show "\<exists>w2. download_stage L2 fis root False zero_counts 0 (length fis) w1
                   = (Inr (zero_counts\<lparr>skipped := length fis\<rparr>), w2)
                 \<and> io_trace w2 = io_trace w1 \<and> files w2 = files w1 \<and> dirs w2 = dirs w1"
    by (simp add: zero_counts_def)
next
  assume "path_exists w (dest_path root fi)"
  then show "cli_download_file L fi root False w = (Inr Skipped, w)"
    by (rule cli_download_file_skip)
next
  assume "\<forall>fi\<in>set fis. path_exists w (dest_path root fi)"
  then show "cli_download_stage L fis root False c w
            = (Inr (c\<lparr>skipped := skipped c + length fis\<rparr>), w)"
    by (rule cli_download_stage_all_skipped)
next
  assume a: "cli_download_stage L fis root False c0 w0 = (Inr c3, w3) \<and> failed c3 = failed c0"
  then have "\<forall>fi\<in>set fis. path_exists w3 (dest_path root fi)"
    by (intro cli_download_stage_all_present[of L fis root c0 w0 c3 w3]) simp_all
  from cli_download_stage_all_skipped[OF this, of L2 zero_counts]
  show "cli_download_stage L2 fis root False zero_counts w3
            = (Inr (zero_counts\<lparr>skipped := length fis\<rparr>), w3)"
    by (simp add: zero_counts_def)
qed

theorem skip_if_exists_witness:
  "fst (download_stage demo [maths_p1, dotted] ''downloads'' False zero_counts 0 2 world0)
     = Inr (zero_counts\<lparr>downloaded := 2\<rparr>)
   \<and> fst (download_stage dead_net [maths_p1, dotted] ''downloads'' False zero_counts 0 2
            (snd (download_stage demo [maths_p1, dotted] ''downloads'' False zero_counts 0 2 world0)))
     = Inr (zero_counts\<lparr>skipped := 2\<rparr>)
   \<and> fst (cli_download_stage demo [maths_p1, dotted] ''downloads'' False zero_counts world0)
     = Inr (zero_counts\<lparr>downloaded := 2\<rparr>)
   \<and> fst (cli_download_stage dead_net [maths_p1, dotted] ''downloads'' False zero_counts
            (snd (cli_download_stage demo [maths_p1, dotted] ''downloads'' False zero_counts world0)))
     = Inr (zero_counts\<lparr>skipped := 2\<rparr>)"
proof -
  define fis where "fis = [maths_p1, dotted]"
  define w1 where "w1 = snd (download_stage demo fis ''downloads'' False zero_counts 0 2 world0)"
  define w3 where "w3 = snd (cli_download_stage demo fis ''downloads'' False zero_counts world0)"
  have first: "fst (download_stage demo fis ''downloads'' False zero_counts 0 2 world0)
     = Inr (zero_counts\<lparr>downloaded := 2\<rparr>)"
    unfolding fis_def by code_simp
  then have run: "download_stage demo fis ''downloads'' False zero_counts 0 2 world0
     = (Inr (zero_counts\<lparr>downloaded := 2\<rparr>), w1)"
    unfolding w1_def by (simp add: prod_eq_iff)
  have cfirst: "fst (cli_download_stage demo fis ''downloads'' False zero_counts world0)
     = Inr (zero_counts\<lparr>downloaded := 2\<rparr>)"
    unfolding fis_def by code_simp
  then have crun: "cli_download_stage demo fis ''downloads'' False zero_counts world0
     = (Inr (zero_counts\<lparr>downloaded := 2\<rparr>), w3)"
    unfolding w3_def by (simp add: prod_eq_iff)
  have nf: "failed (zero_counts\<lparr>downloaded := 2\<rparr>) = failed zero_counts" by simp
  have len: "length fis = 2" by (simp add: fis_def)
  note inst = skip_if_exists[where L = demo and ?L2.0 = dead_net and fis = fis
      and root = "''downloads''" and ?c0.0 = zero_counts and ?d0.0 = 0 and ?t0.0 = 2
      and ?w0.0 = world0 and ?c1.0 = "zero_counts\<lparr>downloaded := 2\<rparr>" and ?w1.0 = w1
      and ?c3.0 = "zero_counts\<lparr>downloaded := 2\<rparr>" and ?w3.0 = w3]
  from inst run nf obtain w2 where
    "download_stage dead_net fis ''downloads'' False zero_counts 0 (length fis) w1
       = (Inr (zero_counts\<lparr>skipped := length fis\<rparr>), w2)"
    by blast
  then have second: "fst (download_stage dead_net fis ''downloads'' False zero_counts 0 2 w1)
     = Inr (zero_counts\<lparr>skipped := 2\<rparr>)"
    by (simp add: len)
  from inst crun nf have
    "cli_download_stage dead_net fis ''downloads'' False zero_counts w3
       = (Inr (zero_counts\<lparr>skipped := length fis\<rparr>), w3)"
    by blast
  then have csecond: "fst (cli_download_stage dead_net fis ''downloads'' False zero_counts w3)
     = Inr (zero_counts\<lparr>skipped := 2\<rparr>)"
    by (simp add: len)
  from first second cfirst csecond show ?thesis unfolding w1_def w3_def fis_def by blast
qed

text \<open>
  Claim C10, amended. When the run is not a dry run and the destination does not
  exist, a download that returns an outcome has called \<open>mkdir\<close> before its first
  request, no directory has gone, and the destination's directory is a directory
  afterwards (so every directory on the way to it is one). With outcome \<open>failed\<close> the
  files are as before and three requests were made after the call of \<open>mkdir\<close>; the set
  of directories is the old one exactly when the destination's directory was there
  already. So a failed download has changed the file system if and only if that
  directory was missing. The skipped path and the dry-run path leave files, directories
  and the trace of calls as they were. All of this for the web job and for the
  command-line script.
\<close>

theorem directories_before_fetch:
  "(\<not> path_exists w (dest_path root fi) \<and> download_file L fi root False w = (Inr r, w')
      \<longrightarrow> dirs w \<subseteq> dirs w' \<and> path_is_dir w' (dest_dir root fi)
          \<and> (\<exists>n rest. 0 < n
                \<and> io_trace w' = io_trace w @ [IoMkdir (dest_dir root fi)]
                     @ replicate n (IoGet (f_url fi)) @ rest
                \<and> (rest = [] \<or> rest = [IoWrite (dest_path root fi)]))
          \<and> (r = Failed \<longrightarrow> files w' = files w
                \<and> io_trace w' = io_trace w @ [IoMkdir (dest_dir root fi)]
                     @ replicate 3 (IoGet (f_url fi))
                \<and> (dirs w' = dirs w \<longleftrightarrow> path_is_dir w (dest_dir root fi))))
   \<and> (\<not> path_exists w (dest_path root fi) \<and> cli_download_file L fi root False w = (Inr r, v')
      \<longrightarrow> dirs w \<subseteq> dirs v' \<and> path_is_dir v' (dest_dir root fi)
          \<and> (\<exists>n rest. 0 < n
                \<and> io_trace v' = io_trace w @ [IoMkdir (dest_dir root fi)]
                     @ replicate n (IoGet (f_url fi)) @ rest
                \<and> (rest = [] \<or> rest = [IoWrite (dest_path root fi)]))
          \<and> (r = Failed \<longrightarrow> files v' = files w
                \<and> io_trace v' = io_trace w @ [IoMkdir (dest_dir root fi)]
                     @ replicate 3 (IoGet (f_url fi))
                \<and> (dirs v' = dirs w \<longleftrightarrow> path_is_dir w (dest_dir root fi))))
   \<and> (path_exists w (dest_path root fi)
      \<longrightarrow> download_file L fi root False w = (Inr Skipped, w)
          \<and> cli_download_file L fi root False w = (Inr Skipped, w))
   \<and> files (snd (download_file L fi root True w)) = files w
   \<and> dirs (snd (download_file L fi root True w)) = dirs w
   \<and> io_trace (snd (download_file L fi root True w)) = io_trace w
   \<and> cli_download_file L fi root True w = (Inr Dryrun, w)"
proof (intro conjI impI)
  assume "\<not> path_exists w (dest_path root fi) \<and> download_file L fi root False w = (Inr r, w')"
  then have f: "fetched fi root r w w'"
    by (intro download_file_fetch[where L = L]) simp_all
  from fetched_dirs[OF f] show "dirs w \<subseteq> dirs w'" "path_is_dir w' (dest_dir root fi)" .
  from fetched_trace[OF f] show "\<exists>n rest. 0 < n
                \<and> io_trace w' = io_trace w @ [IoMkdir (dest_dir root fi)]
                     @ replicate n (IoGet (f_url fi)) @ rest
                \<and> (rest = [] \<or> rest = [IoWrite (dest_path root fi)])" .
  {
    assume "r = Failed"
    with f have "fetched fi root Failed w w'" by simp
    from fetched_failed[OF this] show "files w' = files w"
      "io_trace w' = io_trace w @ [IoMkdir (dest_dir root fi)] @ replicate 3 (IoGet (f_url fi))"
      "dirs w' = dirs w \<longleftrightarrow> path_is_dir w (dest_dir root fi)" .
  }
next
  assume "\<not> path_exists w (dest_path root fi) \<and> cli_download_file L fi root False w = (Inr r, v')"
  then have f: "fetched fi root r w v'"
    by (intro cli_download_file_fetch[where L = L]) simp_all
  from fetched_dirs[OF f] show "dirs w \<subseteq> dirs v'" "path_is_dir v' (dest_dir root fi)" .
  from fetched_trace[OF f] show "\<exists>n rest. 0 < n
                \<and> io_trace v' = io_trace w @ [IoMkdir (dest_dir root fi)]
                     @ replicate n (IoGet (f_url fi)) @ rest
                \<and> (rest = [] \<or> rest = [IoWrite (dest_path root fi)])" .
  {
    assume "r = Failed"
    with f have "fetched fi root Failed w v'" by simp
    from fetched_failed[OF this] show "files v' = files w"
      "io_trace v' = io_trace w @ [IoMkdir (dest_dir root fi)] @ replicate 3 (IoGet (f_url fi))"
      "dirs v' = dirs w \<longleftrightarrow> path_is_dir w (dest_dir root fi)" .
  }
next
  assume "path_exists w (dest_path root fi)"
  then show "download_file L fi root False w = (Inr Skipped, w)"
    "cli_download_file L fi root False w = (Inr Skipped, w)"
    by (rule download_file_skip, rule cli_download_file_skip)
qed (simp_all add: download_file_dry cli_download_file_def)

theorem directories_before_fetch_witness:
  "fst (download_file no_paper maths_p1 ''downloads'' False world0) = Inr Failed
   \<and> \<not> path_is_dir world0 (dest_dir ''downloads'' maths_p1)
   \<and> dirs (snd (download_file no_paper maths_p1 ''downloads'' False world0)) \<noteq> dirs world0
   \<and> path_is_dir (snd (download_file no_paper maths_p1 ''downloads'' False world0))
       (dest_dir ''downloads'' maths_p1)
   \<and> fst (cli_download_file no_paper maths_p1 ''downloads'' False world0) = Inr Failed
   \<and> dirs (snd (cli_download_file no_paper maths_p1 ''downloads'' False world0)) \<noteq> dirs world0"
proof -
  define w' where "w' = snd (download_file no_paper maths_p1 ''downloads'' False world0)"
  define v' where "v' = snd (cli_download_file no_paper maths_p1 ''downloads'' False world0)"
  have r: "fst (download_file no_paper maths_p1 ''downloads'' False world0) = Inr Failed"
    by code_simp
  then have run: "download_file no_paper maths_p1 ''downloads'' False world0 = (Inr Failed, w')"
    unfolding w'_def by (simp add: prod_eq_iff)
  have cr: "fst (cli_download_file no_paper maths_p1 ''downloads'' False world0) = Inr Failed"
    by code_simp
  then have crun: "cli_download_file no_paper maths_p1 ''downloads'' False world0 = (Inr Failed, v')"
    unfolding v'_def by (simp add: prod_eq_iff)
  have ne: "\<not> path_exists world0 (dest_path ''downloads'' maths_p1)" by code_simp
  have nd: "\<not> path_is_dir world0 (dest_dir ''downloads'' maths_p1)" by code_simp
  note inst = directories_before_fetch[where w = world0 and root = "''downloads''"
      and fi = maths_p1 and L = no_paper and r = Failed and w' = w' and v' = v']
  from inst run ne nd have "dirs w' \<noteq> dirs world0" "path_is_dir w' (dest_dir ''downloads'' maths_p1)"
    by blast+
  moreover from inst crun ne nd have "dirs v' \<noteq> dirs world0" by blast
  ultimately show ?thesis using r cr nd unfolding w'_def v'_def by simp
qed

text \<open>
  A second attempt after a failed one: the directories are there, the paper is still
  missing, and the download fails again without any change to files or directories.
\<close>

theorem failed_download_without_change:
  "\<not> path_exists retry_world (dest_path ''downloads'' maths_p1)
   \<and> fst (download_file no_paper maths_p1 ''downloads'' False retry_world) = Inr Failed
   \<and> dirs (snd (download_file no_paper maths_p1 ''downloads'' False retry_world)) = dirs retry_world
   \<and> files (snd (download_file no_paper maths_p1 ''downloads'' False retry_world)) = files retry_world
   \<and> fst (cli_download_file no_paper maths_p1 ''downloads'' False retry_world) = Inr Failed
   \<and> dirs (snd (cli_download_file no_paper maths_p1 ''downloads'' False retry_world)) = dirs retry_world
   \<and> files (snd (cli_download_file no_paper maths_p1 ''downloads'' False retry_world)) = files retry_world"
proof -
  define w' where "w' = snd (download_file no_paper maths_p1 ''downloads'' False retry_world)"
  define v' where "v' = snd (cli_download_file no_paper maths_p1 ''downloads'' False retry_world)"
  have ne: "\<not> path_exists retry_world (dest_path ''downloads'' maths_p1)" by code_simp
  have pd: "path_is_dir retry_world (dest_dir ''downloads'' maths_p1)" by code_simp
  have r: "fst (download_file no_paper maths_p1 ''downloads'' False retry_world) = Inr Failed"
    by code_simp
  then have "download_file no_paper maths_p1 ''downloads'' False retry_world = (Inr Failed, w')"
    unfolding w'_def by (simp add: prod_eq_iff)
  from fetched_failed[OF download_file_fetch[OF ne this]] pd
  have w: "files w' = files retry_world" "dirs w' = dirs retry_world" by simp_all
  have cr: "fst (cli_download_file no_paper maths_p1 ''downloads'' False retry_world) = Inr Failed"
    by code_simp
  then have "cli_download_file no_paper maths_p1 ''downloads'' False retry_world = (Inr Failed, v')"
    unfolding v'_def by (simp add: prod_eq_iff)
  from fetched_failed[OF cli_download_file_fetch[OF ne this]] pd
  have v: "files v' = files retry_world" "dirs v' = dirs retry_world" by simp_all
  from ne r cr w v show ?thesis unfolding w'_def v'_def by simp
qed

section \<open>Count conservation\<close>

lemma download_stage_total:
  "download_stage L fis root dry_run c d t w = (Inr c', w') \<Longrightarrow> total c' = total c + length fis"
proof (induction fis arbitrary: c d w)
  case Nil
  then show ?case by simp
next
  case (Cons fi fis)
  obtain r0 w1 where df: "download_file L fi root dry_run w = (r0, w1)"
    by (cases "download_file L fi root dry_run w")
  with Cons.prems obtain r where r: "r0 = Inr r" by (cases r0) simp_all
  with Cons.prems df have
    "download_stage L fis root dry_run (bump r c) (Suc d) t (emit (Ev_progress_done (Suc d) t) w1)
       = (Inr c', w')"
    by simp
  from Cons.IH[OF this] show ?case by (simp add: total_bump)
qed

lemma cli_download_stage_total:
  "cli_download_stage L fis root dry_run c w = (Inr c', w') \<Longrightarrow> total c' = total c + length fis"
proof (induction fis arbitrary: c w)
  case Nil
  then show ?case by simp
next
  case (Cons fi fis)
  obtain r0 w1 where df: "cli_download_file L fi root dry_run w = (r0, w1)"
    by (cases "cli_download_file L fi root dry_run w")
  with Cons.prems obtain r where r: "r0 = Inr r" by (cases r0) simp_all
  define c1 where "c1 = (if r = Downloaded then c\<lparr>downloaded := downloaded c + 1\<rparr>
             else if r = Failed then c\<lparr>failed := failed c + 1\<rparr>
             else if r = Dryrun then c\<lparr>dryrun := dryrun c + 1\<rparr>
             else c\<lparr>skipped := skipped c + 1\<rparr>)"
  have t: "total c1 = Suc (total c)" by (simp add: c1_def total_def)
  from Cons.prems df r have "cli_download_stage L fis root dry_run c1 w1 = (Inr c', w')"
    by (simp add: c1_def)
  from Cons.IH[OF this] t show ?case by simp
qed

lemma events_finish [simp]: "events (finish w) = events w"
  by (simp add: finish_def)

lemma events_unexpected [simp]:
  "events (unexpected w) = events w @ [Ev_error_unexpected, Ev_done 0 0 0 0]"
  by (simp add: unexpected_def)

lemma total_zero [simp]: "total zero_counts = 0"
  by (simp add: total_def zero_counts_def)

lemma run_job_done:
  "\<exists>a b c d. last (events (run_job L gfs yfs root dry_run t w)) = Ev_done a b c d
     \<and> (a + b + c + d = length (job_files L gfs yfs w)
         \<or> (a + b + c + d = 0
             \<and> (\<exists>es. events (run_job L gfs yfs root dry_run t w)
                        = es @ [Ev_error_unexpected, Ev_done 0 0 0 0])))"
proof -
  obtain sessions w1 where si: "scrape_index L gfs yfs w = (sessions, w1)"
    by (cases "scrape_index L gfs yfs w")
  show ?thesis
  proof (cases "sessions = []")
    case True
    with si show ?thesis by (simp add: run_job_def job_files_def finish_def)
  next
    case False
    obtain all_files w2 where sc: "scan_sessions L sessions [] w1 = (all_files, w2)"
      by (cases "scan_sessions L sessions [] w1")
    with si False have jf: "job_files L gfs yfs w = all_files"
      by (simp add: job_files_def)
    define w2' where "w2' = emit (Ev_info_total (length all_files)) w2"
    show ?thesis
    proof (cases "thread_pool t w2'")
      case (Inl e)
      with si False sc have "events (run_job L gfs yfs root dry_run t w)
          = events w2' @ [Ev_error_unexpected, Ev_done 0 0 0 0]"
        by (simp add: run_job_def w2'_def)
      then show ?thesis by simp
    next
      case (Inr w3)
      obtain res w4 where ds:
        "download_stage L all_files root dry_run zero_counts 0 (length all_files) w3 = (res, w4)"
        by (cases "download_stage L all_files root dry_run zero_counts 0 (length all_files) w3")
      show ?thesis
      proof (cases res)
        case (Inl e)
        with si False sc Inr ds have "events (run_job L gfs yfs root dry_run t w)
            = events w4 @ [Ev_error_unexpected, Ev_done 0 0 0 0]"
          by (simp add: run_job_def w2'_def)
        then show ?thesis by simp
      next
        case c: (Inr c)
        with ds have "total c = length all_files"
          by (auto dest: download_stage_total)
        moreover from si False sc Inr ds c
        have "last (events (run_job L gfs yfs root dry_run t w))
            = Ev_done (downloaded c) (skipped c) (failed c) (dryrun c)"
          by (simp add: run_job_def w2'_def)
        ultimately show ?thesis by (simp add: jf total_def)
      qed
    qed
  qed
qed

lemma main_summary:
  assumes "fst (main L args w) = Inr (Summary c)"
  shows "total c = length (cli_files L args w)"
proof -
  define gf where "gf = (case arg_grade args of
                None \<Rightarrow> None
              | Some g \<Rightarrow> if g = [] then None else Some (''Grade '' @ g))"
  obtain r1 w1 where si: "cli_scrape_index L gf (arg_year args) w = (r1, w1)"
    by (cases "cli_scrape_index L gf (arg_year args) w")
  from assms si obtain ss where ss: "r1 = Inr ss" "ss \<noteq> []"
    by (cases r1) (auto simp: main_def Let_def gf_def split: if_splits)
  obtain fs w2 where sc: "cli_scan L ss [] w1 = (fs, w2)" by (cases "cli_scan L ss [] w1")
  with si ss have cf: "cli_files L args w = fs" by (simp add: cli_files_def gf_def)
  from assms si ss sc have ne: "fs \<noteq> []"
    by (auto simp: main_def Let_def gf_def split: if_splits)
  from assms si ss sc ne obtain w3 where tp: "thread_pool (arg_threads args) w2 = Inr w3"
    by (cases "thread_pool (arg_threads args) w2") (auto simp: main_def Let_def gf_def)
  obtain r4 w4 where ds:
    "cli_download_stage L fs (arg_output_dir args) (arg_dry_run args) zero_counts w3 = (r4, w4)"
    by (cases "cli_download_stage L fs (arg_output_dir args) (arg_dry_run args) zero_counts w3")
  from assms si ss sc ne tp ds have "r4 = Inr c"
    by (cases r4) (auto simp: main_def Let_def gf_def)
  with ds have "total c = length fs" by (auto dest: cli_download_stage_total)
  with cf show ?thesis by simp
qed

text \<open>
  Claim C6. A download stage that ends counts one outcome for each file of its list,
  in the web job and in the script. The web job always ends with a done event; its four
  numbers add up to the number of files the job found, unless the event before it
  reports an unexpected error, and then they are all zero. The summary of the script
  adds up to the number of files the script found.
\<close>

theorem count_conservation:
  "(download_stage L fis root dry_run zero_counts 0 (length fis) w = (Inr c, w')
      \<longrightarrow> downloaded c + skipped c + failed c + dryrun c = length fis)
   \<and> (cli_download_stage L fis root dry_run zero_counts w = (Inr c, w')
      \<longrightarrow> downloaded c + skipped c + failed c + dryrun c = length fis)
   \<and> (\<exists>n1 n2 n3 n4. last (events (run_job L gfs yfs root dry_run t w)) = Ev_done n1 n2 n3 n4
        \<and> (n1 + n2 + n3 + n4 = length (job_files L gfs yfs w)
            \<or> (n1 + n2 + n3 + n4 = 0
                \<and> (\<exists>es. events (run_job L gfs yfs root dry_run t w)
                           = es @ [Ev_error_unexpected, Ev_done 0 0 0 0]))))
   \<and> (fst (main L args w) = Inr (Summary c)
      \<longrightarrow> downloaded c + skipped c + failed c + dryrun c = length (cli_files L args w))"
proof (intro conjI impI)
  assume "download_stage L fis root dry_run zero_counts 0 (length fis) w = (Inr c, w')"
  from download_stage_total[OF this]
  show "downloaded c + skipped c + failed c + dryrun c = length fis"
    by (simp add: total_def zero_counts_def)
next
  assume "cli_download_stage L fis root dry_run zero_counts w = (Inr c, w')"
  from cli_download_stage_total[OF this]
  show "downloaded c + skipped c + failed c + dryrun c = length fis"
    by (simp add: total_def zero_counts_def)
next
  show "\<exists>n1 n2 n3 n4. last (events (run_job L gfs yfs root dry_run t w)) = Ev_done n1 n2 n3 n4
        \<and> (n1 + n2 + n3 + n4 = length (job_files L gfs yfs w)
            \<or> (n1 + n2 + n3 + n4 = 0
                \<and> (\<exists>es. events (run_job L gfs yfs root dry_run t w)
                           = es @ [Ev_error_unexpected, Ev_done 0 0 0 0])))"
    by (rule run_job_done)
next
  assume "fst (main L args w) = Inr (Summary c)"
  from main_summary[OF this]
  show "downloaded c + skipped c + failed c + dryrun c = length (cli_files L args w)"
    by (simp add: total_def)
qed

theorem count_conservation_witness:
  "fst (main demo \<lparr>arg_grade = None, arg_year = None, arg_dry_run = False, arg_threads = 3,
                   arg_output_dir = ''downloads''\<rparr> world0)
     = Inr (Summary \<lparr>downloaded = 1, skipped = 0, failed = 0, dryrun = 0\<rparr>)
   \<and> length (cli_files demo \<lparr>arg_grade = None, arg_year = None, arg_dry_run = False,
                arg_threads = 3, arg_output_dir = ''downloads''\<rparr> world0) = 1
   \<and> fst (download_stage no_paper [maths_p1, dotted] ''downloads'' False zero_counts 0 2 world0)
     = Inr \<lparr>downloaded = 0, skipped = 0, failed = 2, dryrun = 0\<rparr>
   \<and> fst (cli_download_stage demo [maths_p1, dotted] ''downloads'' True zero_counts world0)
     = Inr \<lparr>downloaded = 0, skipped = 0, failed = 0, dryrun = 2\<rparr>
   \<and> last (events (run_job demo [] [] ''downloads'' False 3 world0)) = Ev_done 1 0 0 0
   \<and> length (job_files demo [] [] world0) = 1"
proof -
  define args where "args = \<lparr>arg_grade = None, arg_year = None, arg_dry_run = False,
                arg_threads = 3, arg_output_dir = ''downloads''\<rparr>"
  define c where "c = \<lparr>downloaded = 1, skipped = 0, failed = 0, dryrun = 0\<rparr>"
  define fis where "fis = [maths_p1, dotted]"
  define c2 where "c2 = \<lparr>downloaded = 0, skipped = 0, failed = 2, dryrun = 0\<rparr>"
  define c3 where "c3 = \<lparr>downloaded = 0, skipped = 0, failed = 0, dryrun = 2\<rparr>"
  define w2 where "w2 = snd (download_stage no_paper fis ''downloads'' False zero_counts 0 2 world0)"
  define w3 where "w3 = snd (cli_download_stage demo fis ''downloads'' True zero_counts world0)"
  have len: "length fis = 2" by (simp add: fis_def)
  have m: "fst (main demo args world0) = Inr (Summary c)"
    unfolding args_def c_def by code_simp
  from count_conservation[where L = demo and args = args and c = c and w = world0] m
  have "downloaded c + skipped c + failed c + dryrun c = length (cli_files demo args world0)"
    by blast
  then have n: "length (cli_files demo args world0) = 1" by (simp add: c_def)
  have s2: "fst (download_stage no_paper fis ''downloads'' False zero_counts 0 2 world0) = Inr c2"
    unfolding fis_def c2_def by code_simp
  then have "download_stage no_paper fis ''downloads'' False zero_counts 0 (length fis) world0
      = (Inr c2, w2)"
    unfolding w2_def len by (simp add: prod_eq_iff)
  with count_conservation[where L = no_paper and fis = fis and root = "''downloads''"
      and dry_run = False and c = c2 and w = world0 and w' = w2]
  have "downloaded c2 + skipped c2 + failed c2 + dryrun c2 = length fis" by blast
  have s3: "fst (cli_download_stage demo fis ''downloads'' True zero_counts world0) = Inr c3"
    unfolding fis_def c3_def by code_simp
  then have "cli_download_stage demo fis ''downloads'' True zero_counts world0 = (Inr c3, w3)"
    unfolding w3_def by (simp add: prod_eq_iff)
  with count_conservation[where L = demo and fis = fis and root = "''downloads''"
      and dry_run = True and c = c3 and w = world0 and w' = w3]
  have "downloaded c3 + skipped c3 + failed c3 + dryrun c3 = length fis" by blast
  have j: "last (events (run_job demo [] [] ''downloads'' False 3 world0)) = Ev_done 1 0 0 0"
    by code_simp
  have k: "length (job_files demo [] [] world0) = 1" by code_simp
  from m n s2 s3 j k show ?thesis unfolding args_def c_def fis_def c2_def c3_def by blast
qed

section \<open>An unreachable index page, and the size of the pool\<close>

lemma scrape_index_unreachable:
  assumes "http_get L (requests_made w) INDEX_URL = None"
    and "http_get L (requests_made w + 1) INDEX_URL = None"
    and "http_get L (requests_made w + 2) INDEX_URL = None"
  shows "scrape_index L gfs yfs w =
           ([], emit Ev_error_index (after_gets True INDEX_URL 3 0 (emit Ev_info_fetching w)))"
proof -
  have "get_loop L True INDEX_URL (Suc 0) MAX_RETRY (emit Ev_info_fetching w)
          = (None, after_gets True INDEX_URL 3 0 (emit Ev_info_fetching w))"
    using assms by (intro get_loop_unreachable) simp_all
  then show ?thesis by (simp add: scrape_index_def get_def)
qed

lemma cli_scrape_index_unreachable:
  assumes "http_get L (requests_made w) INDEX_URL = None"
    and "http_get L (requests_made w + 1) INDEX_URL = None"
    and "http_get L (requests_made w + 2) INDEX_URL = None"
  shows "cli_scrape_index L gf yf w = (Inl RuntimeError, after_gets False INDEX_URL 3 0 w)"
proof -
  have "get_loop L False INDEX_URL (Suc 0) MAX_RETRY w
          = (None, after_gets False INDEX_URL 3 0 w)"
    using assms by (intro get_loop_unreachable) simp_all
  then show ?thesis by (simp add: cli_scrape_index_def safe_get_def)
qed

text \<open>
  Claim C2, as the code has it. When the three attempts to fetch the index page all
  fail, the web job does nothing but these three requests; it emits the fetching line,
  one warning for each failed attempt, an error event and then a done event with four
  zeros, clears the flag and returns. The command-line script has no events: there
  \<open>scrape_index\<close> raises \<open>RuntimeError\<close>, which \<open>main\<close> does not catch, after the same
  three requests and nothing else.
\<close>

theorem index_unreachable:
  "http_get L (requests_made w) INDEX_URL = None
   \<and> http_get L (requests_made w + 1) INDEX_URL = None
   \<and> http_get L (requests_made w + 2) INDEX_URL = None
   \<longrightarrow> run_job L gfs yfs root dry_run t w
         = w\<lparr>io_trace := io_trace w @ replicate 3 (IoGet INDEX_URL),
             events := events w @
               [Ev_info_fetching, Ev_warn_retry 1 INDEX_URL, Ev_warn_retry 2 INDEX_URL,
                Ev_warn_retry 3 INDEX_URL, Ev_error_index, Ev_done 0 0 0 0],
             job_active := False\<rparr>
       \<and> main L args w
         = (Inl RuntimeError, w\<lparr>io_trace := io_trace w @ replicate 3 (IoGet INDEX_URL)\<rparr>)"
proof (intro impI conjI)
  assume a: "http_get L (requests_made w) INDEX_URL = None
   \<and> http_get L (requests_made w + 1) INDEX_URL = None
   \<and> http_get L (requests_made w + 2) INDEX_URL = None"
  then have "scrape_index L gfs yfs w =
           ([], emit Ev_error_index (after_gets True INDEX_URL 3 0 (emit Ev_info_fetching w)))"
    by (intro scrape_index_unreachable) simp_all
  then show "run_job L gfs yfs root dry_run t w
         = w\<lparr>io_trace := io_trace w @ replicate 3 (IoGet INDEX_URL),
             events := events w @
               [Ev_info_fetching, Ev_warn_retry 1 INDEX_URL, Ev_warn_retry 2 INDEX_URL,
                Ev_warn_retry 3 INDEX_URL, Ev_error_index, Ev_done 0 0 0 0],
             job_active := False\<rparr>"
    by (simp add: run_job_def finish_def emit_def after_gets_def eval_nat_numeral)
  from a have "cli_scrape_index L
      (case arg_grade args of None \<Rightarrow> None
       | Some g \<Rightarrow> if g = [] then None else Some (''Grade '' @ g)) (arg_year args) w
       = (Inl RuntimeError, after_gets False INDEX_URL 3 0 w)"
    by (intro cli_scrape_index_unreachable) simp_all
  then show "main L args w
         = (Inl RuntimeError, w\<lparr>io_trace := io_trace w @ replicate 3 (IoGet INDEX_URL)\<rparr>)"
    by (simp add: main_def after_gets_def)
qed

theorem index_unreachable_witness:
  "events (run_job dead_net [] [] ''downloads'' False 3 world0)
     = [Ev_info_fetching, Ev_warn_retry 1 INDEX_URL, Ev_warn_retry 2 INDEX_URL,
        Ev_warn_retry 3 INDEX_URL, Ev_error_index, Ev_done 0 0 0 0]
   \<and> io_trace (run_job dead_net [] [] ''downloads'' False 3 world0)
     = [IoGet INDEX_URL, IoGet INDEX_URL, IoGet INDEX_URL]"
proof -
  have h: "http_get dead_net (requests_made world0) INDEX_URL = None
   \<and> http_get dead_net (requests_made world0 + 1) INDEX_URL = None
   \<and> http_get dead_net (requests_made world0 + 2) INDEX_URL = None"
    by (simp add: dead_net_def)
  from index_unreachable[where L = dead_net and w = world0 and gfs = "[]" and yfs = "[]"
         and root = "''downloads''" and dry_run = False and t = 3] h
  have "run_job dead_net [] [] ''downloads'' False 3 world0
         = world0\<lparr>io_trace := io_trace world0 @ replicate 3 (IoGet INDEX_URL),
             events := events world0 @
               [Ev_info_fetching, Ev_warn_retry 1 INDEX_URL, Ev_warn_retry 2 INDEX_URL,
                Ev_warn_retry 3 INDEX_URL, Ev_error_index, Ev_done 0 0 0 0],
             job_active := False\<rparr>"
    by blast
  then show ?thesis by (simp add: world0_def eval_nat_numeral)
qed

text \<open>
  The claim as stated fails in the command-line script: with the server unreachable
  the script ends in an uncaught \<open>RuntimeError\<close>.
\<close>

theorem cli_index_unreachable_raises:
  "fst (main dead_net \<lparr>arg_grade = None, arg_year = None, arg_dry_run = False,
                      arg_threads = 3, arg_output_dir = ''downloads''\<rparr> world0)
     = Inl RuntimeError"
  by code_simp

text \<open>
  Claim C8 holds for a job started through the web handler, which clamps the number
  of threads.
\<close>

lemma start_threads_clamped:
  assumes "\<not> job_active w"
  shows "\<exists>a w'. start grades years out dry_run t w = (Inr a, w')
           \<and> a_threads a = max 1 (min 10 t) \<and> 1 \<le> a_threads a \<and> a_threads a \<le> 10
           \<and> thread_pool (a_threads a) w' = Inr (did (IoPool (max 1 (min 10 t))) w')"
  using assms by (simp add: start_def thread_pool_def)

text \<open>
  Claim C8 fails in the command-line script, which hands the number it was given to the
  pool: 50 threads make a pool of 50 workers, and 0 threads make the pool's constructor
  raise after the whole archive was scanned. The web handler turns 50 into 10.
\<close>

theorem cli_threads_not_clamped:
  "IoPool 50 \<in> set (io_trace (snd (main demo \<lparr>arg_grade = None, arg_year = None,
        arg_dry_run = False, arg_threads = 50, arg_output_dir = ''downloads''\<rparr> world0)))
   \<and> fst (main demo \<lparr>arg_grade = None, arg_year = None, arg_dry_run = False,
        arg_threads = 0, arg_output_dir = ''downloads''\<rparr> world0) = Inl ValueError
   \<and> map_sum id a_threads (fst (start [] [] ''downloads'' False 50 world0)) = Inr 10"
  by code_simp

section \<open>The stop request\<close>

lemma stop_emit: "emit e (stop w) = stop (emit e w)"
  by (simp add: emit_def stop_def)

lemma stop_did: "did a (stop w) = stop (did a w)"
  by (simp add: did_def stop_def)

lemma stop_fields [simp]:
  "files (stop w) = files w" "dirs (stop w) = dirs w" "io_trace (stop w) = io_trace w"
  "events (stop w) = events w" "job_active (stop w) = False"
  by (simp_all add: stop_def)

lemma requests_made_stop [simp]: "requests_made (stop w) = requests_made w"
  by (simp add: requests_made_def)

lemma after_gets_stop: "after_gets em u f k (stop w) = stop (after_gets em u f k w)"
  by (simp add: after_gets_def stop_def)

lemma get_loop_stop:
  "get_loop L em u (Suc 0) MAX_RETRY (stop w)
     = (fst (get_loop L em u (Suc 0) MAX_RETRY w), stop (snd (get_loop L em u (Suc 0) MAX_RETRY w)))"
  by (simp add: get_loop_3 Let_def after_gets_stop split: option.splits)

lemma get_stop: "get L u (stop w) = (fst (get L u w), stop (snd (get L u w)))"
  by (simp add: get_def get_loop_stop)

lemma scrape_index_stop:
  "scrape_index L gfs yfs (stop w)
     = (fst (scrape_index L gfs yfs w), stop (snd (scrape_index L gfs yfs w)))"
  by (simp add: scrape_index_def stop_emit get_stop Let_def split: prod.splits option.splits)

lemma scrape_session_stop:
  "scrape_session L es (stop w)
     = (fst (scrape_session L es w), stop (snd (scrape_session L es w)))"
  by (simp add: scrape_session_def stop_emit get_stop split: prod.splits option.splits)

lemma scan_sessions_stop:
  "scan_sessions L ss fs (stop w)
     = (fst (scan_sessions L ss fs w), stop (snd (scan_sessions L ss fs w)))"
proof (induction ss arbitrary: fs w)
  case Nil
  show ?case by simp
next
  case (Cons es ss)
  show ?case
    by (simp add: scrape_session_stop stop_emit Cons split: prod.splits)
qed

lemma path_exists_stop [simp]: "path_exists (stop w) p = path_exists w p"
  by (rule same_fs) simp_all

lemma mkdir_parents_stop:
  "mkdir_parents d (stop w) = (fst (mkdir_parents d w), stop (snd (mkdir_parents d w)))"
  by (rule mkdir_parents_lift) (simp_all add: stop_def)

lemma write_bytes_stop:
  "write_bytes p c (stop w) = map_sum (\<lambda>e. e) stop (write_bytes p c w)"
  by (rule write_bytes_lift) (simp_all add: stop_def did_def)

lemma download_file_stop:
  "download_file L fi root dry_run (stop w)
     = (fst (download_file L fi root dry_run w), stop (snd (download_file L fi root dry_run w)))"
proof (cases "dry_run \<or> path_exists w (dest_path root fi)")
  case True
  then show ?thesis by (auto simp: download_file_def stop_emit Let_def)
next
  case False
  obtain x w1 where m: "mkdir_parents (dest_dir root fi) (did (IoMkdir (dest_dir root fi)) w) = (x, w1)"
    by (cases "mkdir_parents (dest_dir root fi) (did (IoMkdir (dest_dir root fi)) w)")
  then have m': "mkdir_parents (dest_dir root fi) (did (IoMkdir (dest_dir root fi)) (stop w))
      = (x, stop w1)"
    by (simp add: stop_did mkdir_parents_stop)
  show ?thesis
  proof (cases x)
    case (Some e)
    with False m m' show ?thesis by (simp add: download_file_def Let_def)
  next
    case None
    obtain g w2 where g: "get L (f_url fi) w1 = (g, w2)" by (cases "get L (f_url fi) w1")
    then have g': "get L (f_url fi) (stop w1) = (g, stop w2)" by (simp add: get_stop)
    show ?thesis
    proof (cases g)
      case gn: None
      with False m m' None g g' show ?thesis
        by (simp add: download_file_def stop_emit Let_def)
    next
      case (Some content)
      with False m m' None g g' show ?thesis
        by (cases "write_bytes (dest_path root fi) content w2")
           (simp_all add: download_file_def write_bytes_stop stop_emit Let_def)
    qed
  qed
qed

lemma drain_stop: "drain L fis root dry_run (stop w) = stop (drain L fis root dry_run w)"
  by (induction fis arbitrary: w) (simp_all add: download_file_stop)

lemma download_stage_stop:
  "download_stage L fis root dry_run c d t (stop w)
     = (fst (download_stage L fis root dry_run c d t w),
        stop (snd (download_stage L fis root dry_run c d t w)))"
proof (induction fis arbitrary: c d w)
  case Nil
  show ?case by simp
next
  case (Cons fi fis)
  obtain r w1 where df: "download_file L fi root dry_run w = (r, w1)"
    by (cases "download_file L fi root dry_run w")
  then show ?case
    by (cases r) (simp_all add: download_file_stop drain_stop stop_emit Cons)
qed

lemma thread_pool_stop: "thread_pool n (stop w) = map_sum (\<lambda>e. e) stop (thread_pool n w)"
  by (simp add: thread_pool_def stop_did)

lemma finish_stop [simp]: "finish (stop w) = finish w"
  by (simp add: finish_def stop_def)

lemma unexpected_stop: "unexpected (stop w) = stop (unexpected w)"
  by (simp add: unexpected_def stop_emit)

text \<open>
  Nothing in \<open>run_job\<close> reads the flag that \<open>stop\<close> clears: a job runs the same way
  whether or not a stop was asked for before it.
\<close>

lemma run_job_ignores_stop:
  "run_job L gfs yfs root dry_run t (stop w) = run_job L gfs yfs root dry_run t w"
proof -
  obtain ss w1 where si: "scrape_index L gfs yfs w = (ss, w1)"
    by (cases "scrape_index L gfs yfs w")
  obtain fs w2 where sc: "scan_sessions L ss [] w1 = (fs, w2)"
    by (cases "scan_sessions L ss [] w1")
  define w2' where "w2' = emit (Ev_info_total (length fs)) w2"
  show ?thesis
  proof (cases "thread_pool t w2'")
    case (Inl e)
    with si sc show ?thesis
      by (simp add: run_job_def scrape_index_stop scan_sessions_stop stop_emit thread_pool_stop
          unexpected_stop w2'_def)
  next
    case (Inr w3)
    obtain r w4 where ds: "download_stage L fs root dry_run zero_counts 0 (length fs) w3 = (r, w4)"
      by (cases "download_stage L fs root dry_run zero_counts 0 (length fs) w3")
    with si sc Inr show ?thesis
      by (cases r)
         (simp_all add: run_job_def scrape_index_stop scan_sessions_stop stop_emit thread_pool_stop
          download_stage_stop unexpected_stop w2'_def)
  qed
qed

text \<open>
  Claim C9 fails in the code. A stop request only clears the flag, and no stage of the
  job reads the flag: a job that is stopped before it has done anything runs as if it
  had not been stopped, and a download stage that is entered after a stop takes every
  file as it would have (same outcomes, same calls, same files and directories). On the
  small archive: a job is started, a stop is requested at once, the flag is cleared,
  and the job still fetches the index and the session pages, fills the pool, and
  downloads and writes the paper.
\<close>

theorem stop_does_not_stop:
  "run_job L gfs yfs root dry_run t (stop w) = run_job L gfs yfs root dry_run t w
   \<and> download_stage L fis root dry_run c d n (stop w)
       = (fst (download_stage L fis root dry_run c d n w),
          stop (snd (download_stage L fis root dry_run c d n w)))
   \<and> io_trace (stop (snd (download_stage L fis root dry_run c d n w)))
       = io_trace (snd (download_stage L fis root dry_run c d n w))
   \<and> job_active (stop (snd (start [] [] ''downloads'' False 3 world0))) = False
   \<and> io_trace (run_args demo (projr (fst (start [] [] ''downloads'' False 3 world0)))
                 (stop (snd (start [] [] ''downloads'' False 3 world0))))
     = [IoGet ''https://www.ecexams.co.za/ExaminationPapers.htm'',
        IoGet ''https://www.ecexams.co.za/2023_nov_gr12.htm'',
        IoGet ''https://www.ecexams.co.za/gec2021.htm'',
        IoGet ''https://www.ecexams.co.za/gec2021.htm'',
        IoGet ''https://www.ecexams.co.za/gec2021.htm'',
        IoPool 3,
        IoMkdir [''downloads'', ''Grade 12'', ''2023'', ''Grade 12 November Examination 2023''],
        IoGet ''https://www.ecexams.co.za/maths_p1.pdf'',
        IoWrite [''downloads'', ''Grade 12'', ''2023'', ''Grade 12 November Examination 2023'',
                 ''Maths P1 Paper.pdf'']]"
proof (intro conjI)
  show "run_job L gfs yfs root dry_run t (stop w) = run_job L gfs yfs root dry_run t w"
    by (rule run_job_ignores_stop)
  show "download_stage L fis root dry_run c d n (stop w)
       = (fst (download_stage L fis root dry_run c d n w),
          stop (snd (download_stage L fis root dry_run c d n w)))"
    by (rule download_stage_stop)
  show "io_trace (stop (snd (download_stage L fis root dry_run c d n w)))
       = io_trace (snd (download_stage L fis root dry_run c d n w))"
    by simp
  show "job_active (stop (snd (start [] [] ''downloads'' False 3 world0))) = False"
    by simp
  show "io_trace (run_args demo (projr (fst (start [] [] ''downloads'' False 3 world0)))
                 (stop (snd (start [] [] ''downloads'' False 3 world0))))
     = [IoGet ''https://www.ecexams.co.za/ExaminationPapers.htm'',
        IoGet ''https://www.ecexams.co.za/2023_nov_gr12.htm'',
        IoGet ''https://www.ecexams.co.za/gec2021.htm'',
        IoGet ''https://www.ecexams.co.za/gec2021.htm'',
        IoGet ''https://www.ecexams.co.za/gec2021.htm'',
        IoPool 3,
        IoMkdir [''downloads'', ''Grade 12'', ''2023'', ''Grade 12 November Examination 2023''],
        IoGet ''https://www.ecexams.co.za/maths_p1.pdf'',
        IoWrite [''downloads'', ''Grade 12'', ''2023'', ''Grade 12 November Examination 2023'',
                 ''Maths P1 Paper.pdf'']]"
    by code_simp
qed

end
